theory Spec2Isabelle
  imports Complex_Main "HOL-Library.Word" "HOL-Library.Signed_Division" "HOL-Library.Sublist"
begin

section \<open>Quinn's block-distribution macros (quinn.h)\<close>

text \<open>
  The macros of \<^verbatim>\<open>quinn.h\<close> are untyped token substitutions:
  \<^verbatim>\<open>
  #define BLOCK_LOW(id,p,n)   ((id)*(n)/(p))
  #define BLOCK_HIGH(id,p,n)  (BLOCK_LOW((id)+1,p,n)-1)
  #define BLOCK_SIZE(id,p,n)  (BLOCK_HIGH(id,p,n)-BLOCK_LOW(id,p,n)+1)
  #define BLOCK_OWNER(j,p,n)  (((p)*((j)+1)-1)/(n))
  #define CEILING(i,j)        (((i)+(j)-1)/(j))
  \<close>
  They are embedded over the mathematical integers. C's \<^verbatim>\<open>/\<close> truncates towards zero,
  which is \<open>sdiv\<close> on \<^typ>\<open>int\<close> (not HOL's flooring \<open>div\<close>). The macro parameter
  \<^verbatim>\<open>id\<close> is written \<open>rank\<close>, since \<open>id\<close> is HOL's identity function.
\<close>

definition BLOCK_LOW :: "int \<Rightarrow> int \<Rightarrow> int \<Rightarrow> int" where
  "BLOCK_LOW rank p n = (rank * n) sdiv p"

definition BLOCK_HIGH :: "int \<Rightarrow> int \<Rightarrow> int \<Rightarrow> int" where
  "BLOCK_HIGH rank p n = BLOCK_LOW (rank + 1) p n - 1"

definition BLOCK_SIZE :: "int \<Rightarrow> int \<Rightarrow> int \<Rightarrow> int" where
  "BLOCK_SIZE rank p n = BLOCK_HIGH rank p n - BLOCK_LOW rank p n + 1"

definition BLOCK_OWNER :: "int \<Rightarrow> int \<Rightarrow> int \<Rightarrow> int" where
  "BLOCK_OWNER j p n = (p * (j + 1) - 1) sdiv n"

definition CEILING :: "int \<Rightarrow> int \<Rightarrow> int" where
  "CEILING i j = (i + j - 1) sdiv j"

section \<open>Machine integers and checked memory\<close>

text \<open>
  The C sources use \<^verbatim>\<open>int\<close> for dimensions, loop counters and the thread count,
  \<^verbatim>\<open>long\<close> for thread ranks and \<^verbatim>\<open>size_t\<close> for allocation sizes and element counts.
  They are fixed at the LP64 data model of the 64-bit POSIX systems the program is written
  for: \<^verbatim>\<open>int\<close> is a 32-bit word, \<^verbatim>\<open>long\<close> and \<^verbatim>\<open>size_t\<close> are 64-bit words. Word
  arithmetic wraps around; \<open>sint\<close> reads a word as two's complement, \<open><s\<close> and \<open>\<le>s\<close>
  are the signed comparisons. Signed overflow is undefined in ISO C; the model gives it the
  two's complement wrap-around that the generated machine code performs.
\<close>

type_synonym c_int = "32 word"

type_synonym c_long = "64 word"

type_synonym size_t = "64 word"

text \<open>
  A buffer obtained from \<^verbatim>\<open>malloc\<close> is a list whose length is the number of elements that
  were allocated. Every array access of the compute loops is checked against that length:
  an index outside \<open>[0, length)\<close> is the fault \<open>Out_of_bounds\<close> (in C: undefined behaviour,
  typically a segmentation fault or a silent read of foreign memory), never a silent
  default value. Each access that is performed is also appended to a trace, so that
  statements about which locations a worker touches are statements about the model's
  result, not about a second description of it.
\<close>

datatype buffer = Buf_A | Buf_x | Buf_y

datatype access = Load buffer int | Store buffer int

datatype fault = Out_of_bounds access | Division_by_zero

text \<open>The mutable part of the computation: the output vector and the trace of accesses.\<close>

type_synonym 'a out = "'a list \<times> access list"

definition in_bounds :: "'a list \<Rightarrow> int \<Rightarrow> bool" where
  "in_bounds buf k \<longleftrightarrow> 0 \<le> k \<and> k < int (length buf)"

section \<open>The row computation shared by matrix_vector.c and pth_matrix_vector.c\<close>

text \<open>
  Both programs compute a row with the same statements:
  \<^verbatim>\<open>
      y[i] = 0.0;
      for (j = 0; j < n; j++) {
          y[i] += A[i * n + j] * x[j];
      }
  \<close>
  The element type \<open>'a\<close> stands for \<^verbatim>\<open>double\<close>. Only its \<open>0\<close>, \<open>+\<close> and \<open>*\<close> are used,
  and no law about them (associativity, commutativity, distributivity) is ever assumed, so
  every result below holds for IEEE-754 arithmetic with its rounding as well: two
  computations are equal only if they perform the same operations in the same order.

  \<open>accumulate\<close> is the statement \<^verbatim>\<open>y[i] += A[i * n + j] * x[j]\<close>. The index \<^verbatim>\<open>i * n + j\<close> is
  computed in \<^verbatim>\<open>int\<close>, hence in \<open>c_int\<close>.
\<close>

definition accumulate ::
  "'a::{plus,times} list \<Rightarrow> 'a list \<Rightarrow> c_int \<Rightarrow> c_int \<Rightarrow> c_int \<Rightarrow> 'a out \<Rightarrow> fault + 'a out" where
  "accumulate A x n i j s =
     (case s of (y, tr) \<Rightarrow>
        let ky = sint i; ka = sint (i * n + j); kx = sint j in
        if \<not> in_bounds y ky then Inl (Out_of_bounds (Load Buf_y ky))
        else if \<not> in_bounds A ka then Inl (Out_of_bounds (Load Buf_A ka))
        else if \<not> in_bounds x kx then Inl (Out_of_bounds (Load Buf_x kx))
        else Inr (y[nat ky := y ! nat ky + A ! nat ka * x ! nat kx],
                  tr @ [Load Buf_y ky, Load Buf_A ka, Load Buf_x kx, Store Buf_y ky]))"

text \<open>The loop \<^verbatim>\<open>for (j = 0; j < n; j++)\<close>, entered with the current value of \<open>j\<close>.\<close>

function inner_loop ::
  "'a::{plus,times} list \<Rightarrow> 'a list \<Rightarrow> c_int \<Rightarrow> c_int \<Rightarrow> c_int \<Rightarrow> 'a out \<Rightarrow> fault + 'a out" where
  "inner_loop A x n i j s =
     (if j <s n then
        (case accumulate A x n i j s of
           Inl f \<Rightarrow> Inl f
         | Inr s' \<Rightarrow> inner_loop A x n i (j + 1) s')
      else Inr s)"
  by pat_completeness auto

termination
proof (relation "measure (\<lambda>(A, x, n, i, j, s). nat (sint n - sint j))", goal_cases)
  case 1
  show ?case by simp
next
  case (2 A x n i j s s')
  have "sint j < sint n" using 2(1) by (simp add: word_sless_alt)
  moreover have "sint n < 2 ^ 31" using sint_lt [of n] by simp
  ultimately have "sint (j + 1) = sint j + 1"
    using sint_ge [of j] by (simp add: sint_word_ariths signed_take_bit_int_eq_self)
  then show ?case using \<open>sint j < sint n\<close> by simp
qed

declare inner_loop.simps [simp del]

text \<open>One row: \<^verbatim>\<open>y[i] = 0.0\<close> followed by the inner loop from \<open>j = 0\<close>.\<close>

definition compute_row ::
  "'a::{zero,plus,times} list \<Rightarrow> 'a list \<Rightarrow> c_int \<Rightarrow> c_int \<Rightarrow> 'a out \<Rightarrow> fault + 'a out" where
  "compute_row A x n i s =
     (case s of (y, tr) \<Rightarrow>
        let ky = sint i in
        if \<not> in_bounds y ky then Inl (Out_of_bounds (Store Buf_y ky))
        else inner_loop A x n i 0 (y[nat ky := 0], tr @ [Store Buf_y ky]))"

section \<open>The serial reference: Mat_vect_mult (matrix_vector.c, lines 169--178)\<close>

text \<open>
  \<^verbatim>\<open>
  void Mat_vect_mult(double A[], double x[], double y[], int m, int n) {
      int i, j;
      for (i = 0; i < m; i++) { y[i] = 0.0; for (j ...) y[i] += A[i * n + j] * x[j]; }
  }
  \<close>
\<close>

function Mat_vect_mult_loop ::
  "'a::{zero,plus,times} list \<Rightarrow> 'a list \<Rightarrow> c_int \<Rightarrow> c_int \<Rightarrow> c_int \<Rightarrow> 'a out \<Rightarrow> fault + 'a out" where
  "Mat_vect_mult_loop A x m n i s =
     (if i <s m then
        (case compute_row A x n i s of
           Inl f \<Rightarrow> Inl f
         | Inr s' \<Rightarrow> Mat_vect_mult_loop A x m n (i + 1) s')
      else Inr s)"
  by pat_completeness auto

termination
proof (relation "measure (\<lambda>(A, x, m, n, i, s). nat (sint m - sint i))", goal_cases)
  case 1
  show ?case by simp
next
  case (2 A x m n i s s')
  have "sint i < sint m" using 2(1) by (simp add: word_sless_alt)
  moreover have "sint m < 2 ^ 31" using sint_lt [of m] by simp
  ultimately have "sint (i + 1) = sint i + 1"
    using sint_ge [of i] by (simp add: sint_word_ariths signed_take_bit_int_eq_self)
  then show ?case using \<open>sint i < sint m\<close> by simp
qed

declare Mat_vect_mult_loop.simps [simp del]

definition Mat_vect_mult ::
  "'a::{zero,plus,times} list \<Rightarrow> 'a list \<Rightarrow> 'a out \<Rightarrow> c_int \<Rightarrow> c_int \<Rightarrow> fault + 'a out" where
  "Mat_vect_mult A x s m n = Mat_vect_mult_loop A x m n 0 s"

section \<open>The worker: Pth_mat_vect (pth_matrix_vector.c, lines 238--256)\<close>

text \<open>
  \<^verbatim>\<open>
  void* Pth_mat_vect(void* rank) {
      long my_rank = (long)rank;
      int local_first_row, local_last_row;
      int i, j;
      local_first_row = BLOCK_LOW(my_rank, thread_count, m);
      local_last_row = BLOCK_HIGH(my_rank, thread_count, m);
      for (i = local_first_row; i <= local_last_row; i++) { ... the row computation ... }
      return NULL;
  }
  \<close>
  \<open>rows_loop\<close> is the loop over the rows of the block. Its counter is an \<^verbatim>\<open>int\<close>: if
  \<open>last_row\<close> were \<^verbatim>\<open>INT_MAX\<close>, the increment would wrap to \<^verbatim>\<open>INT_MIN\<close> and the next
  \<^verbatim>\<open>y[i]\<close> would be an access at a negative index, which is a fault. The termination
  proof uses exactly this: a row that did not fault had a non-negative index.
\<close>

function rows_loop ::
  "'a::{zero,plus,times} list \<Rightarrow> 'a list \<Rightarrow> c_int \<Rightarrow> c_int \<Rightarrow> c_int \<Rightarrow> 'a out \<Rightarrow> fault + 'a out" where
  "rows_loop A x n i last_row s =
     (if i \<le>s last_row then
        (case compute_row A x n i s of
           Inl f \<Rightarrow> Inl f
         | Inr s' \<Rightarrow> rows_loop A x n (i + 1) last_row s')
      else Inr s)"
  by pat_completeness auto

termination
proof (relation "measure (\<lambda>(A, x, n, i, last_row, s). if 0 \<le> sint i then nat (2 ^ 31 - sint i) else 0)",
    goal_cases)
  case 1
  show ?case by simp
next
  case (2 A x n i last_row s s')
  have nonneg: "0 \<le> sint i"
    using 2(2) by (auto simp: compute_row_def in_bounds_def Let_def split: prod.splits if_splits)
  have lt: "sint i < 2 ^ 31" using sint_lt [of i] by simp
  show ?case
  proof (cases "sint i = 2 ^ 31 - 1")
    case True
    then have "sint (i + 1) = - (2 ^ 31)"
      by (simp add: sint_word_ariths signed_take_bit_eq_take_bit_shift take_bit_eq_mod)
    then show ?thesis using nonneg lt by simp
  next
    case False
    then have "sint (i + 1) = sint i + 1"
      using nonneg lt by (simp add: sint_word_ariths signed_take_bit_int_eq_self)
    then show ?thesis using nonneg lt by simp
  qed
qed

declare rows_loop.simps [simp del]

text \<open>
  At this call site the macros of \<^verbatim>\<open>quinn.h\<close> are expanded with \<^verbatim>\<open>id\<close> of type
  \<^verbatim>\<open>long\<close> and \<^verbatim>\<open>p\<close>, \<^verbatim>\<open>n\<close> of type \<^verbatim>\<open>int\<close>: by the usual arithmetic conversions the
  product and the quotient are computed in \<^verbatim>\<open>long\<close> (the \<^verbatim>\<open>int\<close> operands are
  sign-extended, \<open>scast\<close>), and the result is converted to \<^verbatim>\<open>int\<close> by the assignment.
  \<open>c_sdiv\<close> is C's signed division on words. Lemmas \<open>local_first_row_eq\<close> and
  \<open>local_last_row_eq\<close> below show that for a rank in \<open>[0, p)\<close> and \<open>m \<ge> 0\<close> nothing
  overflows here, and that the values are those of the macros over the integers.
\<close>

definition c_sdiv :: "'a::len word \<Rightarrow> 'a word \<Rightarrow> 'a word" where
  "c_sdiv a b = word_of_int (sint a sdiv sint b)"

definition BLOCK_LOW_long :: "c_long \<Rightarrow> c_int \<Rightarrow> c_int \<Rightarrow> c_long" where
  "BLOCK_LOW_long rank p n = c_sdiv (rank * scast n) (scast p)"

definition BLOCK_HIGH_long :: "c_long \<Rightarrow> c_int \<Rightarrow> c_int \<Rightarrow> c_long" where
  "BLOCK_HIGH_long rank p n = BLOCK_LOW_long (rank + 1) p n - 1"

text \<open>
  The global variables of \<^verbatim>\<open>pth_matrix_vector.c\<close> (lines 30--34): \<^verbatim>\<open>thread_count\<close>,
  \<^verbatim>\<open>A\<close>, \<^verbatim>\<open>x\<close>, \<^verbatim>\<open>y\<close>, \<^verbatim>\<open>m\<close>, \<^verbatim>\<open>n\<close> (the one-letter names carry the prefix
  \<open>glob_\<close>), and the trace of array accesses performed so far.
\<close>

record 'a globals =
  thread_count :: c_int
  glob_A :: "'a list"
  glob_x :: "'a list"
  glob_y :: "'a list"
  glob_m :: c_int
  glob_n :: c_int
  trace :: "access list"

text \<open>
  The division by \<^verbatim>\<open>thread_count\<close> is undefined for 0 (a trap on the usual targets);
  \<open>main\<close> never starts a worker in that case.
\<close>

definition Pth_mat_vect :: "c_long \<Rightarrow> 'a::{zero,plus,times} globals \<Rightarrow> fault + 'a globals" where
  "Pth_mat_vect my_rank g =
     (if thread_count g = 0 then Inl Division_by_zero
      else
        let local_first_row = (scast (BLOCK_LOW_long my_rank (thread_count g) (glob_m g)) :: c_int);
            local_last_row = (scast (BLOCK_HIGH_long my_rank (thread_count g) (glob_m g)) :: c_int)
        in case rows_loop (glob_A g) (glob_x g) (glob_n g) local_first_row local_last_row
                  (glob_y g, trace g) of
             Inl f \<Rightarrow> Inl f
           | Inr (y', tr') \<Rightarrow> Inr (g\<lparr>glob_y := y', trace := tr'\<rparr>))"

section \<open>The parallel region of main (pth_matrix_vector.c, lines 116--124)\<close>

text \<open>
  \<^verbatim>\<open>
  for (thread = 0; thread < thread_count; thread++) {
      pthread_create(&thread_handles[thread], NULL, Pth_mat_vect, (void*)thread);
  }
  for (thread = 0; thread < thread_count; thread++) {
      pthread_join(thread_handles[thread], NULL);
  }
  \<close>
  The return value of \<^verbatim>\<open>pthread_create\<close> is not read. \<open>started thread\<close> says whether
  the call for that thread succeeds; a thread that was not created never runs, and the
  later \<^verbatim>\<open>pthread_join\<close> on its handle (undefined by POSIX) is taken to return an error
  code, which \<open>main\<close> does not read either. \<open>run_threads\<close> is the sequential schedule
  of the region: each created worker runs to completion, in the order of creation. The
  small-step semantics of the last sections covers every other interleaving.
\<close>

function run_threads ::
  "(c_long \<Rightarrow> bool) \<Rightarrow> c_long \<Rightarrow> 'a::{zero,plus,times} globals \<Rightarrow> fault + 'a globals" where
  "run_threads started thread g =
     (if thread <s scast (thread_count g) then
        (if started thread then
           (case Pth_mat_vect thread g of
              Inl f \<Rightarrow> Inl f
            | Inr g' \<Rightarrow> run_threads started (thread + 1) g')
         else run_threads started (thread + 1) g)
      else Inr g)"
  by pat_completeness auto

termination
proof (relation "measure (\<lambda>(started, thread, g). nat (sint (thread_count g) - sint thread))", goal_cases)
  case 1
  show ?case by simp
next
  case (2 started thread g g')
  have tc: "thread_count g' = thread_count g"
    using 2(3) by (auto simp: Pth_mat_vect_def Let_def split: if_splits sum.splits prod.splits)
  have up: "sint (scast (thread_count g) :: c_long) = sint (thread_count g)"
    by (simp add: sint_up_scast is_up)
  have "sint thread < sint (thread_count g)" using 2(1) up by (simp add: word_sless_alt)
  moreover have "sint (thread_count g) < 2 ^ 31" using sint_lt [of "thread_count g"] by simp
  ultimately have "sint (thread + 1) = sint thread + 1"
    using sint_ge [of thread] by (simp add: sint_word_ariths signed_take_bit_int_eq_self)
  then show ?case using tc \<open>sint thread < sint (thread_count g)\<close> by simp
next
  case (3 started thread g)
  have up: "sint (scast (thread_count g) :: c_long) = sint (thread_count g)"
    by (simp add: sint_up_scast is_up)
  have "sint thread < sint (thread_count g)" using 3(1) up by (simp add: word_sless_alt)
  moreover have "sint (thread_count g) < 2 ^ 31" using sint_lt [of "thread_count g"] by simp
  ultimately have "sint (thread + 1) = sint thread + 1"
    using sint_ge [of thread] by (simp add: sint_word_ariths signed_take_bit_int_eq_self)
  then show ?case using \<open>sint thread < sint (thread_count g)\<close> by simp
qed

declare run_threads.simps [simp del]

section \<open>Reference definitions for the statements below\<close>

text \<open>
  \<open>iter_rows\<close> computes the rows of a list of row numbers, in order, stopping at a fault.
  It is only used to express what the loops above do.
\<close>

fun iter_rows ::
  "'a::{zero,plus,times} list \<Rightarrow> 'a list \<Rightarrow> c_int \<Rightarrow> int list \<Rightarrow> 'a out \<Rightarrow> fault + 'a out" where
  "iter_rows A x n [] s = Inr s"
| "iter_rows A x n (k # ks) s =
     (case compute_row A x n (word_of_int k) s of
        Inl f \<Rightarrow> Inl f
      | Inr s' \<Rightarrow> iter_rows A x n ks s')"

text \<open>
  The result the specification describes: element \<open>i\<close> of the product is the sum of
  \<open>A[i*n+j] * x[j]\<close> accumulated from the left, starting from 0, in the order
  \<open>j = 0, 1, \<dots>, n - 1\<close>.
\<close>

definition dot_row :: "'a::{zero,plus,times} list \<Rightarrow> 'a list \<Rightarrow> nat \<Rightarrow> nat \<Rightarrow> 'a" where
  "dot_row A x n i = foldl (\<lambda>acc j. acc + A ! (i * n + j) * x ! j) 0 [0..<n]"

definition matvec_spec :: "'a::{zero,plus,times} list \<Rightarrow> 'a list \<Rightarrow> nat \<Rightarrow> nat \<Rightarrow> 'a list" where
  "matvec_spec A x m n = map (dot_row A x n) [0..<m]"

text \<open>What a run of the parallel region leaves behind: a fault, or the vector and the trace.\<close>

definition outcome_of :: "fault + 'a globals \<Rightarrow> fault + 'a out" where
  "outcome_of r = map_sum (\<lambda>f. f) (\<lambda>g. (glob_y g, trace g)) r"

text \<open>
  The example of the specification: the matrix \<open>[[1,2,3],[4,5,6]]\<close> and the vector
  \<open>[1,1,1]\<close>, with integer entries, an output buffer holding two arbitrary values and
  \<open>p\<close> workers.
\<close>

definition example_globals :: "c_int \<Rightarrow> int globals" where
  "example_globals p = \<lparr>thread_count = p, glob_A = [1, 2, 3, 4, 5, 6], glob_x = [1, 1, 1],
     glob_y = [77, 88], glob_m = 2, glob_n = 3, trace = []\<rparr>"

section \<open>Files, byte order and the C library\<close>

text \<open>
  A file is its sequence of bytes; the file system maps a path to the contents of the file,
  and a path that is not mapped cannot be opened for reading. The matrix format
  (\<^verbatim>\<open>fread\<close> and \<^verbatim>\<open>fwrite\<close> of an \<^verbatim>\<open>int\<close> or a \<^verbatim>\<open>double\<close> object) stores 4-byte and
  8-byte objects in the byte order of the machine, which is a parameter of the
  environment.
\<close>

unbundle bit_operations_syntax

type_synonym byte = "8 word"

type_synonym filesystem = "string \<rightharpoonup> byte list"

datatype endianness = Little_endian | Big_endian

definition of_le_bytes :: "byte list \<Rightarrow> 'a::len word" where
  "of_le_bytes bs = foldr (\<lambda>b w. ucast b OR push_bit 8 w) bs 0"

definition le_bytes :: "nat \<Rightarrow> 'a::len word \<Rightarrow> byte list" where
  "le_bytes k w = map (\<lambda>i. ucast (drop_bit (8 * i) w)) [0..<k]"

definition decode_word :: "endianness \<Rightarrow> byte list \<Rightarrow> 'a::len word" where
  "decode_word e bs = of_le_bytes (case e of Little_endian \<Rightarrow> bs | Big_endian \<Rightarrow> rev bs)"

definition encode_word :: "endianness \<Rightarrow> nat \<Rightarrow> 'a::len word \<Rightarrow> byte list" where
  "encode_word e k w = (case e of Little_endian \<Rightarrow> le_bytes k w | Big_endian \<Rightarrow> rev (le_bytes k w))"

text \<open>
  Everything the program takes from outside: the file system; which paths \<^verbatim>\<open>fopen\<close> can
  open for writing; how many bytes the device accepts before \<^verbatim>\<open>fwrite\<close> fails;
  whether the \<open>k\<close>-th call of \<^verbatim>\<open>malloc\<close>, for a given number of bytes, succeeds; whether
  \<^verbatim>\<open>pthread_create\<close> succeeds for a given thread; the byte order; the correspondence
  between the 64-bit pattern of a \<^verbatim>\<open>double\<close> and the element type \<open>'a\<close>; the
  indeterminate contents of memory returned by \<^verbatim>\<open>malloc\<close>; and the two elapsed times as
  \<^verbatim>\<open>%e\<close> prints them (\<^verbatim>\<open>GET_TIME\<close> comes from \<^verbatim>\<open>timer.h\<close>, which is not among the
  sources, and no statement below depends on the clock).
\<close>

record 'a env =
  files :: filesystem
  writable :: "string \<Rightarrow> bool"
  disk_room :: nat
  malloc_ok :: "nat \<Rightarrow> nat \<Rightarrow> bool"
  thread_ok :: "c_long \<Rightarrow> bool"
  byte_order :: endianness
  double_of_bits :: "64 word \<Rightarrow> 'a"
  bits_of_double :: "'a \<Rightarrow> 64 word"
  junk :: "nat \<Rightarrow> 'a"
  elapsed_overall :: string
  elapsed_work :: string

text \<open>
  \<open>Read_matrix\<close> and \<open>Write_vector\<close> return \<^verbatim>\<open>-1\<close> for every failure; the model keeps
  the cause. \<open>Inl\<close> stands for the return value \<^verbatim>\<open>-1\<close> (nothing is stored through the
  output pointers), \<open>Inr\<close> for \<^verbatim>\<open>0\<close>.
\<close>

datatype io_error = Cannot_open | Short_header | Bad_dimensions | Out_of_memory | Short_data | Short_write

text \<open>
  \<^verbatim>\<open>fread(&rows, sizeof(int), 1, fp)\<close> returns 1 exactly when four more bytes are available.
\<close>

definition fread_int :: "endianness \<Rightarrow> byte list \<Rightarrow> (c_int \<times> byte list) option" where
  "fread_int e stream =
     (if length stream < 4 then None else Some (decode_word e (take 4 stream), drop 4 stream))"

text \<open>
  \<^verbatim>\<open>fread(A, sizeof(double), nmemb, fp)\<close> delivers the complete 8-byte items that are
  available, at most \<open>nmemb\<close>; its return value is their number.
\<close>

fun chunks :: "nat \<Rightarrow> nat \<Rightarrow> 'b list \<Rightarrow> 'b list list" where
  "chunks sz 0 bs = []"
| "chunks sz (Suc k) bs = take sz bs # chunks sz k (drop sz bs)"

definition fread_doubles :: "endianness \<Rightarrow> nat \<Rightarrow> byte list \<Rightarrow> 64 word list" where
  "fread_doubles e nmemb stream =
     map (decode_word e) (chunks 8 (min nmemb (length stream div 8)) stream)"

section \<open>Read_matrix (pth_matrix_vector.c, lines 169--205; matrix_vector.c, lines 118--161)\<close>

text \<open>
  \<^verbatim>\<open>
  fp = fopen(filename, "rb");            if (fp == NULL) return -1;
  if (fread(&rows, sizeof(int), 1, fp) != 1 ||
      fread(&cols, sizeof(int), 1, fp) != 1)        { fclose(fp); return -1; }
  if (rows <= 0 || cols <= 0)                       { fclose(fp); return -1; }
  A = malloc(rows * cols * sizeof(double));
  if (A == NULL)                                    { fclose(fp); return -1; }
  if (fread(A, sizeof(double), rows * cols, fp) != rows * cols)
                                                    { free(A); fclose(fp); return -1; }
  fclose(fp);  *A_p = A;  *m_p = rows;  *n_p = cols;  return 0;
  \<close>
  The two copies of the function are the same statement for statement. The product
  \<^verbatim>\<open>rows * cols\<close> is an \<^verbatim>\<open>int\<close> product; it is converted to \<^verbatim>\<open>size_t\<close> (sign-extended,
  \<open>scast\<close>) where it is multiplied by \<^verbatim>\<open>sizeof(double)\<close>, passed to \<^verbatim>\<open>fread\<close> and
  compared with the return value of \<^verbatim>\<open>fread\<close>. \<open>alloc\<close> says whether this call of
  \<^verbatim>\<open>malloc\<close> succeeds for the requested number of bytes.
\<close>

definition Read_matrix ::
  "'a env \<Rightarrow> (nat \<Rightarrow> bool) \<Rightarrow> string \<Rightarrow> io_error + ('a list \<times> c_int \<times> c_int)" where
  "Read_matrix env alloc filename =
     (case files env filename of
        None \<Rightarrow> Inl Cannot_open
      | Some stream \<Rightarrow>
          (case fread_int (byte_order env) stream of
             None \<Rightarrow> Inl Short_header
           | Some (rows, stream1) \<Rightarrow>
               (case fread_int (byte_order env) stream1 of
                  None \<Rightarrow> Inl Short_header
                | Some (cols, stream2) \<Rightarrow>
                    if rows \<le>s 0 \<or> cols \<le>s 0 then Inl Bad_dimensions
                    else
                      let count = (scast (rows * cols) :: size_t) in
                      if \<not> alloc (unat (count * 8)) then Inl Out_of_memory
                      else
                        let items = fread_doubles (byte_order env) (unat count) stream2 in
                        if (of_nat (length items) :: size_t) \<noteq> count then Inl Short_data
                        else Inr (map (double_of_bits env) items, rows, cols))))"

section \<open>Write_vector (pth_matrix_vector.c, lines 211--231)\<close>

text \<open>
  \<^verbatim>\<open>fwrite\<close> on a stream: the device accepts bytes until its room is used up; the return
  value is the number of complete items accepted. The stream is modelled without a
  buffer, so a failure shows in the return value of the \<^verbatim>\<open>fwrite\<close> that hits it;
  \<^verbatim>\<open>fclose\<close>, whose return value the sources never read, closes the file as it is.
\<close>

definition fwrite :: "nat \<Rightarrow> byte list list \<Rightarrow> byte list \<times> nat \<Rightarrow> nat \<times> (byte list \<times> nat)" where
  "fwrite sz items st =
     (case st of (content, room) \<Rightarrow>
        let accepted = take room (concat items) in
        (length accepted div sz, (content @ accepted, room - length accepted)))"

text \<open>
  \<^verbatim>\<open>
  int cols = 1;
  fp = fopen(filename, "wb");            if (fp == NULL) return -1;
  if (fwrite(&m, sizeof(int), 1, fp) != 1 ||
      fwrite(&cols, sizeof(int), 1, fp) != 1)       { fclose(fp); return -1; }
  if (fwrite(y, sizeof(double), m, fp) != m)        { fclose(fp); return -1; }
  fclose(fp);  return 0;
  \<close>
  \<^verbatim>\<open>fopen\<close> with mode \<^verbatim>\<open>"wb"\<close> creates the file or truncates it to length zero. On
  every path after a successful \<^verbatim>\<open>fopen\<close> the file stays in the file system with the
  bytes written so far: the function has no statement that removes it.
\<close>

definition Write_vector ::
  "'a env \<Rightarrow> filesystem \<Rightarrow> string \<Rightarrow> 'a list \<Rightarrow> c_int \<Rightarrow> (io_error + unit) \<times> filesystem" where
  "Write_vector env fs filename y m =
     (if \<not> writable env filename then (Inl Cannot_open, fs)
      else
        let cols = (1 :: c_int);
            e = byte_order env;
            (k1, st1) = fwrite 4 [encode_word e 4 m] ([], disk_room env)
        in if k1 \<noteq> 1 then (Inl Short_write, fs(filename \<mapsto> fst st1))
           else
             let (k2, st2) = fwrite 4 [encode_word e 4 cols] st1
             in if k2 \<noteq> 1 then (Inl Short_write, fs(filename \<mapsto> fst st2))
                else
                  let count = (scast m :: size_t);
                      items = map (\<lambda>v. encode_word e 8 (bits_of_double env v)) (take (unat count) y);
                      (k3, st3) = fwrite 8 items st2
                  in if (of_nat k3 :: size_t) \<noteq> count then (Inl Short_write, fs(filename \<mapsto> fst st3))
                     else (Inr (), fs(filename \<mapsto> fst st3)))"

section \<open>the %d conversion and atoi\<close>

text \<open>\<open>show_int\<close> is the decimal text \<^verbatim>\<open>%d\<close> prints.\<close>

definition digit_char :: "nat \<Rightarrow> char" where
  "digit_char d = char_of (48 + d)"

function show_nat :: "nat \<Rightarrow> string" where
  "show_nat k = (if k < 10 then [digit_char k] else show_nat (k div 10) @ [digit_char (k mod 10)])"
  by pat_completeness auto

termination
  by (relation "measure (\<lambda>k. k)") auto

declare show_nat.simps [simp del]

definition show_int :: "int \<Rightarrow> string" where
  "show_int k = (if k < 0 then CHR ''-'' # show_nat (nat (- k)) else show_nat (nat k))"

text \<open>
  \<^verbatim>\<open>atoi\<close>: optional white space, an optional sign, then the longest run of decimal
  digits; no digits give 0. Out of range the C standard leaves the result undefined; the
  model follows the usual implementation \<^verbatim>\<open>(int) strtol(s, NULL, 10)\<close>, which saturates at
  the bounds of \<^verbatim>\<open>long\<close> and then keeps the low 32 bits.
\<close>

definition isspace :: "char \<Rightarrow> bool" where
  "isspace c \<longleftrightarrow> c \<in> {CHR '' '', CHR 0x09, CHR 0x0A, CHR 0x0B, CHR 0x0C, CHR 0x0D}"

definition isdigit :: "char \<Rightarrow> bool" where
  "isdigit c \<longleftrightarrow> 48 \<le> (of_char c :: nat) \<and> (of_char c :: nat) \<le> 57"

definition atoi :: "string \<Rightarrow> c_int" where
  "atoi s =
     (let s1 = dropWhile isspace s;
          (neg, s2) = (case s1 of
                         c # r \<Rightarrow> if c = CHR ''-'' then (True, r)
                                  else if c = CHR ''+'' then (False, r) else (False, s1)
                       | [] \<Rightarrow> (False, s1));
          v = fold (\<lambda>c a. 10 * a + (int (of_char c) - 48)) (takeWhile isdigit s2) 0;
          clamped = max (- (2 ^ 63)) (min (2 ^ 63 - 1) (if neg then - v else v))
      in word_of_int clamped)"

section \<open>main (pth_matrix_vector.c, lines 42--152)\<close>

text \<open>
  What a run of the program leaves behind: how it ended (the exit code, or a fault of a
  worker), the lines written to the error stream, the file system, and two observations
  of the parallel region: the number of \<^verbatim>\<open>pthread_create\<close> calls made and the trace of
  array accesses of the workers.
\<close>

datatype status = Exit int | Crash fault

record run =
  status :: status
  stderr :: "string list"
  disk :: filesystem
  launched :: nat
  accesses :: "access list"

text \<open>\<open>Usage\<close> prints four lines (lines 158--163).\<close>

definition Usage :: "string \<Rightarrow> string list" where
  "Usage prog_name =
     [''Usage: '' @ prog_name @ '' <file_A> <file_x> <file_y> <num_threads>'',
      ''  Multiplies matrix A by vector x using pthreads'',
      ''  Stores result in y and prints timing to stderr'',
      ''  Example: '' @ prog_name @ '' A.mat x.mat y.mat 4'']"

text \<open>
  Every failure before the parallel region ends in \<^verbatim>\<open>fprintf(stderr, ...); exit(1)\<close>
  (the calls of \<^verbatim>\<open>free\<close> in between have no observable effect): \<open>stop\<close>.
\<close>

definition stop :: "'a env \<Rightarrow> string list \<Rightarrow> run" where
  "stop env msgs = \<lparr>status = Exit 1, stderr = msgs, disk = files env, launched = 0, accesses = []\<rparr>"

definition count_launched :: "c_int \<Rightarrow> nat" where
  "count_launched p = nat (sint p)"

text \<open>
  \<open>main\<close> is written in three parts, in the order of the source. \<open>write_stage\<close> is lines
  129--151: \<^verbatim>\<open>Write_vector(argv[3], y, m)\<close>, then either the error message and
  \<^verbatim>\<open>exit(1)\<close>, or the timing line \<^verbatim>\<open>"%d,%d,%e,%e\n"\<close> and \<^verbatim>\<open>return 0\<close>.
\<close>

definition write_stage :: "'a env \<Rightarrow> string list \<Rightarrow> c_int \<Rightarrow> 'a globals \<Rightarrow> run" where
  "write_stage env argv tc g =
     (case Write_vector env (files env) (argv ! 3) (glob_y g) (glob_m g) of
        (Inl e, fs) \<Rightarrow>
          \<lparr>status = Exit 1,
           stderr = [''Error: Failed to write result to '' @ argv ! 3],
           disk = fs, launched = count_launched tc, accesses = trace g\<rparr>
      | (Inr u, fs) \<Rightarrow>
          \<lparr>status = Exit 0,
           stderr = [show_int (sint (glob_m g)) @ '','' @ show_int (sint tc) @ '',''
                     @ elapsed_overall env @ '','' @ elapsed_work env],
           disk = fs, launched = count_launched tc, accesses = trace g\<rparr>)"

text \<open>
  The globals when the workers start: \<^verbatim>\<open>y = malloc(m * sizeof(double))\<close> holds
  indeterminate values.
\<close>

definition initial_globals ::
  "'a env \<Rightarrow> c_int \<Rightarrow> 'a list \<Rightarrow> c_int \<Rightarrow> c_int \<Rightarrow> 'a list \<Rightarrow> 'a globals" where
  "initial_globals env tc A m n x =
     \<lparr>thread_count = tc, glob_A = A, glob_x = x,
      glob_y = map (junk env) [0..<unat ((scast m :: size_t) * 8) div 8],
      glob_m = m, glob_n = n, trace = []\<rparr>"

text \<open>\<open>compute_stage\<close> is lines 94--127: the two allocations and the parallel region.\<close>

definition compute_stage ::
  "'a::{zero,plus,times} env \<Rightarrow> string list \<Rightarrow> c_int \<Rightarrow> 'a list \<Rightarrow> c_int \<Rightarrow> c_int \<Rightarrow> 'a list \<Rightarrow> run" where
  "compute_stage env argv tc A m n x =
     (if \<not> malloc_ok env 2 (unat ((scast m :: size_t) * 8)) then
        stop env [''Error: Cannot allocate memory for result vector'']
      else if \<not> malloc_ok env 3 (unat ((scast tc :: size_t) * 8)) then
        stop env [''Error: Cannot allocate memory for thread handles'']
      else
        (case run_threads (thread_ok env) 0 (initial_globals env tc A m n x) of
              Inl f \<Rightarrow> \<lparr>status = Crash f, stderr = [], disk = files env,
                         launched = count_launched tc, accesses = []\<rparr>
            | Inr g' \<Rightarrow> write_stage env argv tc g'))"

text \<open>
  Lines 51--92: the argument count (\<open>argv\<close> is the whole argument vector, \<open>argc\<close> its
  length), the thread count, the two input files, the two checks of the dimensions.
\<close>

definition main :: "'a::{zero,plus,times} env \<Rightarrow> string list \<Rightarrow> run" where
  "main env argv =
     (if int (length argv) \<noteq> 5 then stop env (Usage (argv ! 0))
      else
        let tc = atoi (argv ! 4) in
        if tc \<le>s 0 then stop env [''Error: Number of threads must be positive'']
        else
          (case Read_matrix env (malloc_ok env 0) (argv ! 1) of
             Inl e \<Rightarrow> stop env [''Error: Failed to read matrix A from '' @ argv ! 1]
           | Inr (A, m, n) \<Rightarrow>
               (case Read_matrix env (malloc_ok env 1) (argv ! 2) of
                  Inl e \<Rightarrow> stop env [''Error: Failed to read vector x from '' @ argv ! 2]
                | Inr (x, m_x, n_x) \<Rightarrow>
                    (if n_x \<noteq> 1 then
                       stop env [''Error: x must be a column vector (n_x = '' @ show_int (sint n_x)
                                   @ '', should be 1)'']
                     else if n \<noteq> m_x then
                       stop env [''Error: Incompatible dimensions for multiplication'',
                                 ''  Matrix A is '' @ show_int (sint m) @ '' x '' @ show_int (sint n)
                                   @ '', Vector x is '' @ show_int (sint m_x) @ '' x 1'']
                     else compute_stage env argv tc A m n x))))"

text \<open>The bytes of a complete result file for the vector \<open>y\<close> of \<open>m\<close> elements.\<close>

definition vector_bytes :: "'a env \<Rightarrow> c_int \<Rightarrow> 'a list \<Rightarrow> byte list" where
  "vector_bytes env m y =
     encode_word (byte_order env) 4 m @ encode_word (byte_order env) 4 (1 :: c_int)
     @ concat (map (\<lambda>v. encode_word (byte_order env) 8 (bits_of_double env v))
                (take (unat (scast m :: size_t)) y))"

section \<open>Example inputs\<close>

text \<open>
  The examples instantiate the element type with \<open>int\<close> and read the 64-bit pattern of
  an entry as a two's complement integer; they are there to evaluate the definitions on
  concrete files. \<open>A.mat\<close> and \<open>x.mat\<close> are the 2 x 3 matrix and the vector of the
  specification's correctness example, \<open>B.mat\<close> is a 3 x 4 matrix.
\<close>

definition example_file :: "c_int \<Rightarrow> c_int \<Rightarrow> int list \<Rightarrow> byte list" where
  "example_file r c vs =
     encode_word Little_endian 4 r @ encode_word Little_endian 4 c
     @ concat (map (\<lambda>v. encode_word Little_endian 8 (word_of_int v :: 64 word)) vs)"

definition example_files :: filesystem where
  "example_files =
     [''A.mat'' \<mapsto> example_file 2 3 [1, 2, 3, 4, 5, 6],
      ''x.mat'' \<mapsto> example_file 3 1 [1, 1, 1],
      ''B.mat'' \<mapsto> example_file 3 4 [1, 2, 3, 4, 5, 6, 7, 8, 9, 10, 11, 12]]"

definition example_env :: "int env" where
  "example_env =
     \<lparr>files = example_files, writable = (\<lambda>_. True), disk_room = 4096,
      malloc_ok = (\<lambda>_ _. True), thread_ok = (\<lambda>_. True), byte_order = Little_endian,
      double_of_bits = sint, bits_of_double = word_of_int, junk = (\<lambda>k. 1000 + int k),
      elapsed_overall = ''1.250000e-03'', elapsed_work = ''2.500000e-04''\<rparr>"

definition mismatch_argv :: "string list" where
  "mismatch_argv = [''pth_matrix_vector'', ''B.mat'', ''x.mat'', ''y.mat'', ''2'']"

definition example_argv :: "string list" where
  "example_argv = [''pth_matrix_vector'', ''A.mat'', ''x.mat'', ''y.mat'', ''2'']"

section \<open>Arithmetic of the block distribution\<close>

lemma sdiv_nonneg_eq_div: "0 \<le> a \<Longrightarrow> 0 < b \<Longrightarrow> a sdiv b = a div (b::int)"
  by (simp add: signed_divide_int_def sgn_if)

lemma BLOCK_LOW_div: "0 \<le> rank \<Longrightarrow> 0 \<le> n \<Longrightarrow> 0 < p \<Longrightarrow> BLOCK_LOW rank p n = (rank * n) div p"
  by (simp add: BLOCK_LOW_def sdiv_nonneg_eq_div)

lemma BLOCK_LOW_zero: "BLOCK_LOW 0 p n = 0"
  by (simp add: BLOCK_LOW_def)

lemma BLOCK_LOW_top: "0 \<le> n \<Longrightarrow> 0 < p \<Longrightarrow> BLOCK_LOW p p n = n"
  by (simp add: BLOCK_LOW_div)

lemma BLOCK_LOW_mono:
  assumes "0 \<le> n" "0 < p" "0 \<le> a" "a \<le> b"
  shows "BLOCK_LOW a p n \<le> BLOCK_LOW b p n"
proof -
  have "a * n \<le> b * n" using assms by (simp add: mult_right_mono)
  then have "(a * n) div p \<le> (b * n) div p" using assms by (simp add: zdiv_mono1)
  then show ?thesis using assms by (simp add: BLOCK_LOW_div)
qed

lemma BLOCK_LOW_nonneg: "0 \<le> n \<Longrightarrow> 0 < p \<Longrightarrow> 0 \<le> rank \<Longrightarrow> 0 \<le> BLOCK_LOW rank p n"
  by (simp add: BLOCK_LOW_div pos_imp_zdiv_nonneg_iff)

lemma BLOCK_LOW_le_n: 
  assumes "0 \<le> n" "0 < p" "0 \<le> rank" "rank \<le> p" shows "BLOCK_LOW rank p n \<le> n"
  using BLOCK_LOW_mono [OF assms(1,2,3,4)] assms by (simp add: BLOCK_LOW_top)

lemma div_mult_le_int:
  assumes "0 < n" shows "(a div n) * n \<le> (a::int)"
proof -
  have "n * (a div n) + a mod n = a" by (rule mult_div_mod_eq)
  moreover have "0 \<le> a mod n" using assms by simp
  ultimately have "n * (a div n) \<le> a" by linarith
  then show ?thesis by (simp add: mult.commute)
qed

lemma lt_div_mult_int:
  assumes "0 < n" shows "(a::int) < (a div n + 1) * n"
proof -
  have "n * (a div n) + a mod n = a" by (rule mult_div_mod_eq)
  moreover have "a mod n < n" using assms by simp
  ultimately have "a < n * (a div n) + n" by linarith
  then show ?thesis by (simp add: algebra_simps)
qed

lemma div_lt_int: 
  assumes "0 < n" "(a::int) < p * n" shows "a div n < p"
proof (rule ccontr)
  assume "\<not> a div n < p"
  then have "p * n \<le> (a div n) * n" using assms(1) by (simp add: mult_right_mono)
  then show False using div_mult_le_int [OF assms(1), of a] assms(2) by simp
qed

lemma le_div_int:
  assumes "0 < n" "p * n \<le> (a::int)" shows "p \<le> a div n"
proof (rule ccontr)
  assume "\<not> p \<le> a div n"
  then have "a div n + 1 \<le> p" by simp
  then have "(a div n + 1) * n \<le> p * n" using assms(1) by (simp add: mult_right_mono)
  then show False using lt_div_mult_int [OF assms(1), of a] assms(2) by simp
qed

lemma owner_nonneg_arg:
  assumes "0 < p" "0 \<le> j" shows "0 \<le> p * (j + 1) - (1::int)"
proof -
  have "p * 1 \<le> p * (j + 1)" by (rule mult_left_mono) (use assms in auto)
  then show ?thesis using assms by simp
qed

lemma BLOCK_OWNER_div:
  "0 < n \<Longrightarrow> 0 < p \<Longrightarrow> 0 \<le> j \<Longrightarrow> BLOCK_OWNER j p n = (p * (j + 1) - 1) div n"
  by (simp add: BLOCK_OWNER_def sdiv_nonneg_eq_div owner_nonneg_arg)

lemma owner_range:
  assumes "0 < n" "0 < p" "0 \<le> j" "j < n"
  shows "0 \<le> BLOCK_OWNER j p n \<and> BLOCK_OWNER j p n < p"
proof -
  have "p * (j + 1) \<le> p * n" by (rule mult_left_mono) (use assms in auto)
  then have "p * (j + 1) - 1 < p * n" by simp
  then have "(p * (j + 1) - 1) div n < p"
    using assms(1) by (rule div_lt_int [rotated])
  moreover have "0 \<le> (p * (j + 1) - 1) div n"
    using owner_nonneg_arg [OF assms(2,3)] assms(1) by (simp add: pos_imp_zdiv_nonneg_iff)
  ultimately show ?thesis using assms by (simp add: BLOCK_OWNER_div)
qed

lemma owner_block:
  assumes "0 < n" "0 < p" "0 \<le> j" "j < n"
  shows "BLOCK_LOW (BLOCK_OWNER j p n) p n \<le> j \<and> j \<le> BLOCK_HIGH (BLOCK_OWNER j p n) p n"
proof -
  define w where "w = BLOCK_OWNER j p n"
  have wr: "0 \<le> w" "w < p" using owner_range [OF assms] by (simp_all add: w_def)
  have eq: "w = (p * (j + 1) - 1) div n"
    using assms by (simp add: w_def BLOCK_OWNER_div)
  have le: "w * n \<le> p * (j + 1) - 1"
    unfolding eq using assms(1) by (rule div_mult_le_int)
  have gt: "p * (j + 1) - 1 < (w + 1) * n"
    unfolding eq using assms(1) by (rule lt_div_mult_int)
  have "w * n < (j + 1) * p" using le by (simp add: mult.commute)
  then have "(w * n) div p < j + 1" using assms(2) by (rule div_lt_int [rotated])
  then have lo: "BLOCK_LOW w p n \<le> j" using wr assms by (simp add: BLOCK_LOW_div)
  have "(j + 1) * p \<le> (w + 1) * n" using gt by (simp add: mult.commute)
  then have "j + 1 \<le> ((w + 1) * n) div p" using assms(2) by (rule le_div_int [rotated])
  then have hi: "j \<le> BLOCK_HIGH w p n" using wr assms by (simp add: BLOCK_HIGH_def BLOCK_LOW_div)
  show ?thesis using lo hi by (simp add: w_def)
qed

lemma BLOCK_range_unique:
  assumes "0 \<le> n" "0 < p" "0 \<le> a" "a < b"
    and "r \<le> BLOCK_HIGH a p n" "BLOCK_LOW b p n \<le> r"
  shows False
proof -
  have "BLOCK_LOW (a + 1) p n \<le> BLOCK_LOW b p n"
    using assms(1-4) by (intro BLOCK_LOW_mono) auto
  then show False using assms(5,6) by (simp add: BLOCK_HIGH_def)
qed

lemma BLOCK_disjoint:
  assumes "0 \<le> n" "0 < p" "0 \<le> a" "0 \<le> b" "a \<noteq> b"
  shows "{BLOCK_LOW a p n .. BLOCK_HIGH a p n} \<inter> {BLOCK_LOW b p n .. BLOCK_HIGH b p n} = {}"
proof -
  { fix r assume "r \<in> {BLOCK_LOW a p n .. BLOCK_HIGH a p n}" "r \<in> {BLOCK_LOW b p n .. BLOCK_HIGH b p n}"
    then have ra: "BLOCK_LOW a p n \<le> r" "r \<le> BLOCK_HIGH a p n"
      and rb: "BLOCK_LOW b p n \<le> r" "r \<le> BLOCK_HIGH b p n" by auto
    have False
    proof (cases "a < b")
      case True
      then show False using BLOCK_range_unique [OF assms(1,2,3) True ra(2) rb(1)] by simp
    next
      case False
      then have "b < a" using assms(5) by simp
      then show False using BLOCK_range_unique [OF assms(1,2,4) _ rb(2) ra(1)] by simp
    qed }
  then show ?thesis by blast
qed

lemma BLOCK_range_within:
  assumes "0 \<le> n" "0 < p" "0 \<le> a" "a < p" "r \<in> {BLOCK_LOW a p n .. BLOCK_HIGH a p n}"
  shows "0 \<le> r \<and> r < n"
proof -
  have "0 \<le> BLOCK_LOW a p n" using assms by (simp add: BLOCK_LOW_nonneg)
  moreover have "BLOCK_LOW (a + 1) p n \<le> n" using assms by (intro BLOCK_LOW_le_n) auto
  ultimately show ?thesis using assms(5) by (simp add: BLOCK_HIGH_def)
qed

lemma BLOCK_union:
  assumes "0 \<le> n" "0 < p"
  shows "(\<Union>a\<in>{0..<p}. {BLOCK_LOW a p n .. BLOCK_HIGH a p n}) = {0..<n}"
proof (intro set_eqI iffI)
  fix r assume "r \<in> (\<Union>a\<in>{0..<p}. {BLOCK_LOW a p n .. BLOCK_HIGH a p n})"
  then obtain a where "0 \<le> a" "a < p" "r \<in> {BLOCK_LOW a p n .. BLOCK_HIGH a p n}" by auto
  then show "r \<in> {0..<n}" using BLOCK_range_within [OF assms] by auto
next
  fix r assume "r \<in> {0..<n}"
  then have r: "0 \<le> r" "r < n" by auto
  then have "0 < n" by simp
  from owner_range [OF this assms(2) r] owner_block [OF this assms(2) r]
  show "r \<in> (\<Union>a\<in>{0..<p}. {BLOCK_LOW a p n .. BLOCK_HIGH a p n})"
    by (intro UN_I [of "BLOCK_OWNER r p n"]) auto
qed

lemma BLOCK_SIZE_cases:
  assumes "0 \<le> n" "0 < p" "0 \<le> a"
  shows "BLOCK_SIZE a p n = n div p \<or> (\<not> p dvd n \<and> BLOCK_SIZE a p n = n div p + 1)"
proof -
  have sz: "BLOCK_SIZE a p n = (a * n + n) div p - (a * n) div p"
    using assms by (simp add: BLOCK_SIZE_def BLOCK_HIGH_def BLOCK_LOW_div algebra_simps)
  have split: "(a * n + n) div p = (a * n) div p + n div p + ((a * n) mod p + n mod p) div p"
    by (rule div_add1_eq)
  have lo: "0 \<le> (a * n) mod p + n mod p" using assms by (simp add:)
  have hi: "(a * n) mod p + n mod p < 2 * p"
    using pos_mod_bound [of p "a * n"] pos_mod_bound [of p n] assms(2) by linarith
  have "0 \<le> ((a * n) mod p + n mod p) div p" using lo assms(2) by (simp add: pos_imp_zdiv_nonneg_iff)
  moreover have "((a * n) mod p + n mod p) div p < 2"
    using hi assms(2) by (intro div_lt_int) (auto simp: mult.commute)
  ultimately have c: "((a * n) mod p + n mod p) div p = 0 \<or> ((a * n) mod p + n mod p) div p = 1"
    by linarith
  have d: "p dvd n \<Longrightarrow> ((a * n) mod p + n mod p) div p = 0"
    using assms(2) by (simp add: dvd_eq_mod_eq_0)
  show ?thesis using sz split c d by auto
qed

lemma CEILING_div:
  assumes "0 \<le> n" "0 < p"
  shows "CEILING n p = (if p dvd n then n div p else n div p + 1)"
proof -
  have c: "CEILING n p = (n + p - 1) div p" using assms by (simp add: CEILING_def sdiv_nonneg_eq_div)
  have le: "(n div p) * p \<le> n" using assms(2) by (rule div_mult_le_int)
  have lt: "n < (n div p + 1) * p" using assms(2) by (rule lt_div_mult_int)
  show ?thesis
  proof (cases "p dvd n")
    case True
    then have eq: "(n div p) * p = n" by simp
    have "(n div p) * p \<le> n + p - 1" using eq assms(2) by linarith
    then have 1: "n div p \<le> (n + p - 1) div p" using assms(2) by (rule le_div_int [rotated])
    have "n + p - 1 < (n div p + 1) * p" using eq by (simp add: algebra_simps)
    then have 2: "(n + p - 1) div p < n div p + 1" using assms(2) by (rule div_lt_int [rotated])
    show ?thesis using True c 1 2 by simp
  next
    case False
    then have "(n div p) * p \<noteq> n" by (metis dvd_triv_right)
    then have "(n div p) * p + 1 \<le> n" using le by linarith
    then have "(n div p + 1) * p \<le> n + p - 1" by (simp add: algebra_simps)
    then have 1: "n div p + 1 \<le> (n + p - 1) div p" using assms(2) by (rule le_div_int [rotated])
    have "n + p - 1 < (n div p + 1 + 1) * p" using lt assms(2) by (simp add: algebra_simps)
    then have 2: "(n + p - 1) div p < n div p + 1 + 1" using assms(2) by (rule div_lt_int [rotated])
    show ?thesis using False c 1 2 by simp
  qed
qed

lemma ceiling_real_div:
  assumes "0 < p"
  shows "\<lceil>real_of_int n / real_of_int p\<rceil> = (if p dvd n then n div p else n div p + 1)"
proof -
  have "\<lceil>real_of_int n / real_of_int p\<rceil> = - ((- n) div p)"
    by (simp add: ceiling_divide_eq_div)
  also have "\<dots> = (if p dvd n then n div p else n div p + 1)"
    using assms by (simp add: zdiv_zminus1_eq_if dvd_eq_mod_eq_0)
  finally show ?thesis .
qed

section \<open>Claims about the block distribution\<close>

text \<open>
  \<^bold>\<open>Claim C1\<close> (partition totality). For every number of rows \<open>n \<ge> 0\<close> and every worker
  count \<open>p \<ge> 1\<close>, the inclusive ranges \<open>[BLOCK_LOW a p n, BLOCK_HIGH a p n]\<close> of the workers
  \<open>a \<in> [0, p)\<close> start at row 0, end at row \<open>n - 1\<close>, follow each other without a gap
  (each block starts right after the previous one ends, and may be empty), are pairwise
  disjoint, and their union is exactly \<open>[0, n)\<close>: every row \<open>r \<in> [0, n)\<close> lies in the
  range of exactly one worker.
\<close>

theorem block_partition:
  assumes "0 \<le> n" and "1 \<le> p"
  shows "BLOCK_LOW 0 p n = 0 \<and> BLOCK_HIGH (p - 1) p n = n - 1
       \<and> (\<forall>a. 0 \<le> a \<and> a < p \<longrightarrow> BLOCK_LOW (a + 1) p n = BLOCK_HIGH a p n + 1
              \<and> BLOCK_LOW a p n \<le> BLOCK_LOW (a + 1) p n)
       \<and> (\<forall>a b. 0 \<le> a \<and> a < p \<and> 0 \<le> b \<and> b < p \<and> a \<noteq> b \<longrightarrow>
              {BLOCK_LOW a p n .. BLOCK_HIGH a p n} \<inter> {BLOCK_LOW b p n .. BLOCK_HIGH b p n} = {})
       \<and> (\<Union>a\<in>{0..<p}. {BLOCK_LOW a p n .. BLOCK_HIGH a p n}) = {0..<n}
       \<and> (\<forall>r. 0 \<le> r \<and> r < n \<longrightarrow>
              (\<exists>!a. 0 \<le> a \<and> a < p \<and> BLOCK_LOW a p n \<le> r \<and> r \<le> BLOCK_HIGH a p n))"
proof -
  have p: "0 < p" using assms(2) by simp
  have 1: "BLOCK_LOW 0 p n = 0" by (rule BLOCK_LOW_zero)
  have 2: "BLOCK_HIGH (p - 1) p n = n - 1"
    using assms(1) p by (simp add: BLOCK_HIGH_def BLOCK_LOW_top)
  have 3: "\<forall>a. 0 \<le> a \<and> a < p \<longrightarrow> BLOCK_LOW (a + 1) p n = BLOCK_HIGH a p n + 1
              \<and> BLOCK_LOW a p n \<le> BLOCK_LOW (a + 1) p n"
    using assms(1) p by (simp add: BLOCK_HIGH_def BLOCK_LOW_mono)
  have 4: "\<forall>a b. 0 \<le> a \<and> a < p \<and> 0 \<le> b \<and> b < p \<and> a \<noteq> b \<longrightarrow>
              {BLOCK_LOW a p n .. BLOCK_HIGH a p n} \<inter> {BLOCK_LOW b p n .. BLOCK_HIGH b p n} = {}"
    using BLOCK_disjoint [OF assms(1) p] by blast
  have 5: "(\<Union>a\<in>{0..<p}. {BLOCK_LOW a p n .. BLOCK_HIGH a p n}) = {0..<n}"
    using assms(1) p by (rule BLOCK_union)
  have 6: "\<forall>r. 0 \<le> r \<and> r < n \<longrightarrow>
              (\<exists>!a. 0 \<le> a \<and> a < p \<and> BLOCK_LOW a p n \<le> r \<and> r \<le> BLOCK_HIGH a p n)"
  proof (intro allI impI, elim conjE, rule ex_ex1I)
    fix r :: int assume r: "0 \<le> r" "r < n"
    have n: "0 < n" using r by simp
    show "\<exists>a. 0 \<le> a \<and> a < p \<and> BLOCK_LOW a p n \<le> r \<and> r \<le> BLOCK_HIGH a p n"
      using owner_range [OF n p r] owner_block [OF n p r] by blast
  next
    fix r a b :: int
    assume a: "0 \<le> a \<and> a < p \<and> BLOCK_LOW a p n \<le> r \<and> r \<le> BLOCK_HIGH a p n"
      and b: "0 \<le> b \<and> b < p \<and> BLOCK_LOW b p n \<le> r \<and> r \<le> BLOCK_HIGH b p n"
    show "a = b"
    proof (rule ccontr)
      assume "a \<noteq> b"
      then have "{BLOCK_LOW a p n .. BLOCK_HIGH a p n} \<inter> {BLOCK_LOW b p n .. BLOCK_HIGH b p n} = {}"
        using a b BLOCK_disjoint [OF assms(1) p] by blast
      moreover have "r \<in> {BLOCK_LOW a p n .. BLOCK_HIGH a p n} \<inter> {BLOCK_LOW b p n .. BLOCK_HIGH b p n}"
        using a b by simp
      ultimately show False by blast
    qed
  qed
  show ?thesis by (intro conjI 1 2 3 4 5 6)
qed

theorem block_partition_witness:
  "BLOCK_LOW 0 3 10 = 0 \<and> BLOCK_HIGH 2 3 10 = 9
   \<and> BLOCK_LOW 2 3 10 = BLOCK_HIGH 1 3 10 + 1
   \<and> {BLOCK_LOW 0 3 10 .. BLOCK_HIGH 0 3 10} \<inter> {BLOCK_LOW 1 3 10 .. BLOCK_HIGH 1 3 10} = {}"
proof -
  have h: "(0::int) \<le> 10" "(1::int) \<le> 3" by simp_all
  note t = block_partition [OF h]
  have a: "BLOCK_LOW 0 3 10 = 0" by (rule t [THEN conjunct1])
  have b: "BLOCK_HIGH (3 - 1) 3 10 = 10 - 1" by (rule t [THEN conjunct2, THEN conjunct1])
  have c: "\<forall>a. 0 \<le> a \<and> a < 3 \<longrightarrow> BLOCK_LOW (a + 1) 3 10 = BLOCK_HIGH a 3 10 + 1
              \<and> BLOCK_LOW a 3 10 \<le> BLOCK_LOW (a + 1) 3 10"
    by (rule t [THEN conjunct2, THEN conjunct2, THEN conjunct1])
  have d: "\<forall>a b. 0 \<le> a \<and> a < 3 \<and> 0 \<le> b \<and> b < 3 \<and> a \<noteq> b \<longrightarrow>
              {BLOCK_LOW a 3 10 .. BLOCK_HIGH a 3 10} \<inter> {BLOCK_LOW b 3 10 .. BLOCK_HIGH b 3 10} = {}"
    by (rule t [THEN conjunct2, THEN conjunct2, THEN conjunct2, THEN conjunct1])
  have c1: "BLOCK_LOW 2 3 10 = BLOCK_HIGH 1 3 10 + 1" using c [rule_format, of 1] by simp
  have d1: "{BLOCK_LOW 0 3 10 .. BLOCK_HIGH 0 3 10} \<inter> {BLOCK_LOW 1 3 10 .. BLOCK_HIGH 1 3 10} = {}"
    using d [rule_format, of 0 1] by simp
  show ?thesis using a b c1 d1 by simp
qed

text \<open>
  \<^bold>\<open>Claim C5\<close> (balance bound). For every \<open>n \<ge> 0\<close>, \<open>p \<ge> 1\<close> and worker
  \<open>a \<in> [0, p)\<close>, the block size \<open>BLOCK_HIGH - BLOCK_LOW + 1\<close> is the floor or the ceiling
  of the rational \<open>n / p\<close>. Both bounds are also what the C expressions compute: the floor
  is C's \<^verbatim>\<open>n/p\<close> and the ceiling is the header's \<^verbatim>\<open>CEILING(n,p)\<close>.
\<close>

theorem block_size_balanced:
  assumes "0 \<le> n" and "1 \<le> p" and "0 \<le> a" and "a < p"
  shows "(BLOCK_SIZE a p n = \<lfloor>real_of_int n / real_of_int p\<rfloor>
          \<or> BLOCK_SIZE a p n = \<lceil>real_of_int n / real_of_int p\<rceil>)
       \<and> \<lfloor>real_of_int n / real_of_int p\<rfloor> = n sdiv p
       \<and> \<lceil>real_of_int n / real_of_int p\<rceil> = CEILING n p"
proof -
  have p: "0 < p" using assms(2) by simp
  have f: "\<lfloor>real_of_int n / real_of_int p\<rfloor> = n div p" by (rule floor_divide_of_int_eq)
  have c: "\<lceil>real_of_int n / real_of_int p\<rceil> = (if p dvd n then n div p else n div p + 1)"
    using p by (rule ceiling_real_div)
  have s: "n sdiv p = n div p" using assms(1) p by (rule sdiv_nonneg_eq_div)
  have m: "CEILING n p = (if p dvd n then n div p else n div p + 1)"
    using assms(1) p by (rule CEILING_div)
  show ?thesis using BLOCK_SIZE_cases [OF assms(1) p assms(3)] f c s m by auto
qed

theorem block_size_balanced_witness:
  "BLOCK_SIZE 1 3 10 = 3 \<and> BLOCK_SIZE 2 3 10 = 4
   \<and> \<lfloor>real_of_int 10 / real_of_int 3\<rfloor> = 3 \<and> \<lceil>real_of_int 10 / real_of_int 3\<rceil> = 4"
proof -
  have h: "(0::int) \<le> 10" "(1::int) \<le> 3" by simp_all
  have s1: "BLOCK_SIZE 1 3 10 = 3" by (simp add: BLOCK_SIZE_def BLOCK_HIGH_def BLOCK_LOW_def)
  have s2: "BLOCK_SIZE 2 3 10 = 4" by (simp add: BLOCK_SIZE_def BLOCK_HIGH_def BLOCK_LOW_def)
  have fl: "(10::int) sdiv 3 = 3" by simp
  have ce: "CEILING 10 3 = 4" by (simp add: CEILING_def)
  show ?thesis
    using block_size_balanced [OF h, of 1] s1 s2 fl ce by simp
qed



section \<open>Signed word arithmetic without overflow\<close>

lemma sint_scast_int_long: "sint (scast (w :: c_int) :: c_long) = sint w"
  by (simp add: sint_up_scast is_up)

lemma sint_c_int_bounds: "- (2 ^ 31) \<le> sint (w :: c_int) \<and> sint w < 2 ^ 31"
  using sint_ge [of w] sint_lt [of w] by simp

lemma sint_c_long_bounds: "- (2 ^ 63) \<le> sint (w :: c_long) \<and> sint w < 2 ^ 63"
  using sint_ge [of w] sint_lt [of w] by simp

lemma sint_of_int_c_int: "- (2 ^ 31) \<le> k \<Longrightarrow> k < 2 ^ 31 \<Longrightarrow> sint (word_of_int k :: c_int) = k"
  by (simp add: sint_sbintrunc' signed_take_bit_int_eq_self)

lemma sint_of_int_c_long: "- (2 ^ 63) \<le> k \<Longrightarrow> k < 2 ^ 63 \<Longrightarrow> sint (word_of_int k :: c_long) = k"
  by (simp add: sint_sbintrunc' signed_take_bit_int_eq_self)

lemma sint_scast_long_int:
  "- (2 ^ 31) \<le> sint (w :: c_long) \<Longrightarrow> sint w < 2 ^ 31 \<Longrightarrow> sint (scast w :: c_int) = sint w"
  using sint_of_int_c_int by fastforce

lemma sint_succ_c_int: "sint (w :: c_int) < 2 ^ 31 - 1 \<Longrightarrow> sint (w + 1) = sint w + 1"
  using sint_ge [of w] by (simp add: sint_word_ariths signed_take_bit_int_eq_self)

lemma sint_succ_c_long: "sint (w :: c_long) < 2 ^ 63 - 1 \<Longrightarrow> sint (w + 1) = sint w + 1"
  using sint_ge [of w] by (simp add: sint_word_ariths signed_take_bit_int_eq_self)

lemma sint_pred_c_long: "- (2 ^ 63) < sint (w :: c_long) \<Longrightarrow> sint (w - 1) = sint w - 1"
  using sint_lt [of w] by (simp add: sint_word_ariths signed_take_bit_int_eq_self)

lemma sint_mult_c_long:
  "- (2 ^ 63) \<le> sint (a :: c_long) * sint b \<Longrightarrow> sint a * sint b < 2 ^ 63 \<Longrightarrow> sint (a * b) = sint a * sint b"
  by (simp add: sint_word_ariths signed_take_bit_int_eq_self)

lemma word_of_int_sint_c_int: "word_of_int (sint (w :: c_int)) = w"
  by simp

section \<open>The macros at the call site agree with the macros over the integers\<close>

lemma div_le_self_int: "0 \<le> (a::int) \<Longrightarrow> a div b \<le> a"
  by (cases "a = 0") (simp_all add: int_div_le_self)

lemma BLOCK_LOW_long_eq:
  assumes "0 \<le> sint rank" "sint rank \<le> sint p" "0 < sint p" "0 \<le> sint n"
  shows "sint (BLOCK_LOW_long rank p n) = BLOCK_LOW (sint rank) (sint p) (sint n)"
proof -
  have pb: "sint p < 2 ^ 31" and nb: "sint n < 2 ^ 31" using sint_c_int_bounds by blast+
  have prod_nonneg: "0 \<le> sint rank * sint n" using assms by simp
  have "sint rank * sint n \<le> 2 ^ 31 * 2 ^ 31"
    using assms pb nb by (intro mult_mono) auto
  then have prod_lt: "sint rank * sint n < 2 ^ 63" by simp
  have prod: "sint (rank * scast n) = sint rank * sint n"
    using prod_nonneg prod_lt by (simp add: sint_mult_c_long sint_scast_int_long)
  have q_nonneg: "0 \<le> (sint rank * sint n) div sint p"
    using prod_nonneg assms(3) by (simp add: pos_imp_zdiv_nonneg_iff)
  have q_le: "(sint rank * sint n) div sint p \<le> sint rank * sint n"
    using prod_nonneg by (rule div_le_self_int)
  have "sint (BLOCK_LOW_long rank p n) = (sint rank * sint n) sdiv sint p"
    unfolding BLOCK_LOW_long_def c_sdiv_def prod sint_scast_int_long
    using q_nonneg q_le prod_lt prod_nonneg assms(3)
    by (simp add: sdiv_nonneg_eq_div sint_of_int_c_long)
  then show ?thesis by (simp add: BLOCK_LOW_def)
qed

lemma local_first_row_eq:
  assumes "0 \<le> sint rank" "sint rank \<le> sint p" "0 < sint p" "0 \<le> sint n"
  shows "sint (scast (BLOCK_LOW_long rank p n) :: c_int) = BLOCK_LOW (sint rank) (sint p) (sint n)"
proof -
  have "0 \<le> BLOCK_LOW (sint rank) (sint p) (sint n)"
    using assms by (simp add: BLOCK_LOW_nonneg)
  moreover have "BLOCK_LOW (sint rank) (sint p) (sint n) \<le> sint n"
    using assms by (simp add: BLOCK_LOW_le_n)
  moreover have "sint n < 2 ^ 31" using sint_c_int_bounds by blast
  ultimately show ?thesis
    using BLOCK_LOW_long_eq [OF assms] by (simp add: sint_scast_long_int)
qed

lemma local_last_row_eq:
  assumes "0 \<le> sint rank" "sint rank < sint p" "0 \<le> sint n"
  shows "sint (scast (BLOCK_HIGH_long rank p n) :: c_int) = BLOCK_HIGH (sint rank) (sint p) (sint n)"
proof -
  have pb: "sint p < 2 ^ 31" using sint_c_int_bounds by blast
  have succ: "sint (rank + 1) = sint rank + 1"
    using assms(2) pb by (simp add: sint_succ_c_long)
  have low: "sint (BLOCK_LOW_long (rank + 1) p n) = BLOCK_LOW (sint rank + 1) (sint p) (sint n)"
    using BLOCK_LOW_long_eq [of "rank + 1" p n] assms by (simp add: succ)
  have lo: "0 \<le> BLOCK_LOW (sint rank + 1) (sint p) (sint n)"
    using assms by (simp add: BLOCK_LOW_nonneg)
  have hi: "BLOCK_LOW (sint rank + 1) (sint p) (sint n) \<le> sint n"
    using assms by (simp add: BLOCK_LOW_le_n)
  have nb: "sint n < 2 ^ 31" using sint_c_int_bounds by blast
  have "sint (BLOCK_HIGH_long rank p n) = BLOCK_LOW (sint rank + 1) (sint p) (sint n) - 1"
    unfolding BLOCK_HIGH_long_def using low lo by (simp add: sint_pred_c_long)
  then show ?thesis
    using lo hi nb by (simp add: sint_scast_long_int BLOCK_HIGH_def)
qed

section \<open>The loops as iterations over row intervals\<close>

lemma iter_rows_append:
  "iter_rows A x n (ks @ ls) s =
     (case iter_rows A x n ks s of Inl f \<Rightarrow> Inl f | Inr s' \<Rightarrow> iter_rows A x n ls s')"
  by (induction ks arbitrary: s) (auto split: sum.splits)

lemma rows_loop_iter:
  "sint last_row < 2 ^ 31 - 1 \<Longrightarrow>
   rows_loop A x n i last_row s = iter_rows A x n [sint i..sint last_row] s"
proof (induction A x n i last_row s rule: rows_loop.induct)
  case (1 A x n i last_row s)
  show ?case
  proof (cases "i \<le>s last_row")
    case True
    then have le: "sint i \<le> sint last_row" by (simp add: word_sle_eq)
    then have succ: "sint (i + 1) = sint i + 1" using "1.prems" by (simp add: sint_succ_c_int)
    have up: "[sint i..sint last_row] = sint i # [sint i + 1..sint last_row]"
      using le by (simp add: upto_rec1)
    show ?thesis
      using True "1.IH" "1.prems"
      by (subst rows_loop.simps) (simp add: up succ split: sum.splits)
  next
    case False
    then have "\<not> sint i \<le> sint last_row" by (simp add: word_sle_eq)
    then show ?thesis using False by (subst rows_loop.simps) simp
  qed
qed

lemma Mat_vect_mult_loop_iter:
  "Mat_vect_mult_loop A x m n i s = iter_rows A x n [sint i..sint m - 1] s"
proof (induction A x m n i s rule: Mat_vect_mult_loop.induct)
  case (1 A x m n i s)
  show ?case
  proof (cases "i <s m")
    case True
    then have lt: "sint i < sint m" by (simp add: word_sless_alt)
    moreover have "sint m < 2 ^ 31" using sint_c_int_bounds by blast
    ultimately have succ: "sint (i + 1) = sint i + 1" by (simp add: sint_succ_c_int)
    have up: "[sint i..sint m - 1] = sint i # [sint i + 1..sint m - 1]"
      using lt by (simp add: upto_rec1)
    show ?thesis
      using True "1.IH"
      by (subst Mat_vect_mult_loop.simps) (simp add: up succ split: sum.splits)
  next
    case False
    then have "\<not> sint i < sint m" by (simp add: word_sless_alt)
    then show ?thesis using False by (subst Mat_vect_mult_loop.simps) simp
  qed
qed

lemma Pth_mat_vect_iter:
  assumes "0 \<le> sint rank" "sint rank < sint (thread_count g)" "0 \<le> sint (glob_m g)"
  shows "Pth_mat_vect rank g =
     (case iter_rows (glob_A g) (glob_x g) (glob_n g)
             [BLOCK_LOW (sint rank) (sint (thread_count g)) (sint (glob_m g)) ..
              BLOCK_HIGH (sint rank) (sint (thread_count g)) (sint (glob_m g))]
             (glob_y g, trace g) of
        Inl f \<Rightarrow> Inl f
      | Inr (y', tr') \<Rightarrow> Inr (g\<lparr>glob_y := y', trace := tr'\<rparr>))"
proof -
  have p: "0 < sint (thread_count g)" using assms by simp
  then have nz: "thread_count g \<noteq> 0" by auto
  have first: "sint (scast (BLOCK_LOW_long rank (thread_count g) (glob_m g)) :: c_int)
      = BLOCK_LOW (sint rank) (sint (thread_count g)) (sint (glob_m g))"
    using assms p by (intro local_first_row_eq) auto
  have last: "sint (scast (BLOCK_HIGH_long rank (thread_count g) (glob_m g)) :: c_int)
      = BLOCK_HIGH (sint rank) (sint (thread_count g)) (sint (glob_m g))"
    using assms by (intro local_last_row_eq) auto
  have "BLOCK_LOW (sint rank + 1) (sint (thread_count g)) (sint (glob_m g)) \<le> sint (glob_m g)"
    using assms p by (intro BLOCK_LOW_le_n) auto
  moreover have "sint (glob_m g) < 2 ^ 31" using sint_c_int_bounds by blast
  ultimately have "BLOCK_HIGH (sint rank) (sint (thread_count g)) (sint (glob_m g)) < 2 ^ 31 - 1"
    by (simp add: BLOCK_HIGH_def)
  then show ?thesis
    using nz by (simp add: Pth_mat_vect_def Let_def rows_loop_iter first last)
qed

lemma run_threads_iter:
  assumes "0 \<le> sint (glob_m g)" "0 \<le> sint thread" "sint thread \<le> sint (thread_count g)"
    and "0 < sint (thread_count g)" and "\<forall>k. started k"
  shows "run_threads started thread g =
     (case iter_rows (glob_A g) (glob_x g) (glob_n g)
             [BLOCK_LOW (sint thread) (sint (thread_count g)) (sint (glob_m g)) .. sint (glob_m g) - 1]
             (glob_y g, trace g) of
        Inl f \<Rightarrow> Inl f
      | Inr (y', tr') \<Rightarrow> Inr (g\<lparr>glob_y := y', trace := tr'\<rparr>))"
  using assms
proof (induction started thread g rule: run_threads.induct)
  case (1 started thread g)
  let ?p = "sint (thread_count g)" and ?m = "sint (glob_m g)"
  show ?case
  proof (cases "thread <s scast (thread_count g)")
    case False
    then have "sint thread = ?p" using "1.prems" by (simp add: word_sless_alt sint_scast_int_long)
    then have "BLOCK_LOW (sint thread) ?p ?m = ?m" using "1.prems" by (simp add: BLOCK_LOW_top)
    then show ?thesis using False by (subst run_threads.simps) simp
  next
    case True
    then have lt: "sint thread < ?p" by (simp add: word_sless_alt sint_scast_int_long)
    moreover have "?p < 2 ^ 31" using sint_c_int_bounds by blast
    ultimately have succ: "sint (thread + 1) = sint thread + 1" by (simp add: sint_succ_c_long)
    have lo_le: "BLOCK_LOW (sint thread) ?p ?m \<le> BLOCK_LOW (sint thread + 1) ?p ?m"
      using "1.prems" by (intro BLOCK_LOW_mono) auto
    have hi_le: "BLOCK_LOW (sint thread + 1) ?p ?m \<le> ?m"
      using "1.prems" lt by (intro BLOCK_LOW_le_n) auto
    have split: "[BLOCK_LOW (sint thread) ?p ?m .. ?m - 1]
        = [BLOCK_LOW (sint thread) ?p ?m .. BLOCK_HIGH (sint thread) ?p ?m]
          @ [BLOCK_LOW (sint thread + 1) ?p ?m .. ?m - 1]"
    proof (cases "BLOCK_LOW (sint thread + 1) ?p ?m \<le> ?m - 1")
      case True
      then show ?thesis
        using lo_le upto_split1 [of "BLOCK_LOW (sint thread) ?p ?m" "BLOCK_LOW (sint thread + 1) ?p ?m" "?m - 1"]
        by (simp add: BLOCK_HIGH_def)
    next
      case False
      then have "BLOCK_LOW (sint thread + 1) ?p ?m = ?m" using hi_le by simp
      then show ?thesis by (simp add: BLOCK_HIGH_def)
    qed
    note pth = Pth_mat_vect_iter [OF "1.prems"(2) lt "1.prems"(1)]
    show ?thesis
    proof (cases "Pth_mat_vect thread g")
      case (Inl f)
      then show ?thesis
        using True pth "1.prems"(5)
        by (subst run_threads.simps) (auto simp: split iter_rows_append split: sum.splits prod.splits)
    next
      case (Inr g')
      then obtain y' tr' where it: "iter_rows (glob_A g) (glob_x g) (glob_n g)
             [BLOCK_LOW (sint thread) ?p ?m .. BLOCK_HIGH (sint thread) ?p ?m] (glob_y g, trace g) = Inr (y', tr')"
        and g': "g' = g\<lparr>glob_y := y', trace := tr'\<rparr>"
        using pth by (auto split: sum.splits prod.splits)
      have ih: "run_threads started (thread + 1) g' =
         (case iter_rows (glob_A g') (glob_x g') (glob_n g')
             [BLOCK_LOW (sint (thread + 1)) (sint (thread_count g')) (sint (glob_m g')) .. sint (glob_m g') - 1]
             (glob_y g', trace g') of
            Inl f \<Rightarrow> Inl f
          | Inr (y', tr') \<Rightarrow> Inr (g'\<lparr>glob_y := y', trace := tr'\<rparr>))"
        using "1.prems" lt succ by (intro "1.IH"(1) [OF True _ Inr]) (simp_all add: g')
      show ?thesis
        using True Inr ih "1.prems"(5)
        by (subst run_threads.simps) (simp add: split iter_rows_append it g' succ split: sum.splits prod.splits)
    qed
  qed
qed

section \<open>The serial loop computes the specified sums\<close>

lemma sint_index:
  assumes "0 \<le> sint i" "0 \<le> sint j" "sint j < sint n" "sint i * sint n + sint n \<le> 2 ^ 31"
  shows "sint (i * n + j :: c_int) = sint i * sint n + sint j"
proof -
  have n: "0 < sint n" using assms by simp
  have a: "0 \<le> sint i * sint n" using assms n by simp
  have b: "sint i * sint n + sint j < 2 ^ 31" using assms by simp
  have "sint (i * n) = sint i * sint n"
    using a b assms(2) by (simp add: sint_word_ariths signed_take_bit_int_eq_self)
  then show ?thesis
    using a b assms(2) by (simp add: sint_word_ariths signed_take_bit_int_eq_self)
qed

lemma inner_loop_result:
  assumes "0 \<le> sint i" "sint i < int (length y)" "0 \<le> sint j" "sint j \<le> sint n"
    and "sint i * sint n + sint n \<le> int (length A)" "sint i * sint n + sint n \<le> 2 ^ 31"
    and "sint n \<le> int (length x)"
  shows "\<exists>tr'. inner_loop A x n i j (y, tr) =
     Inr (y[nat (sint i) := foldl (\<lambda>acc k. acc + A ! (nat (sint i) * nat (sint n) + k) * x ! k)
                              (y ! nat (sint i)) [nat (sint j)..<nat (sint n)]], tr')"
  using assms
proof (induction A x n i j "(y, tr)" arbitrary: y tr rule: inner_loop.induct)
  case (1 A x n i j y tr)
  show ?case
  proof (cases "j <s n")
    case False
    then have "sint j = sint n" using "1.prems" by (simp add: word_sless_alt)
    then show ?thesis using False by (subst inner_loop.simps) simp
  next
    case True
    then have lt: "sint j < sint n" by (simp add: word_sless_alt)
    have idx: "sint (i * n + j) = sint i * sint n + sint j"
      using "1.prems" lt by (intro sint_index) auto
    have "sint n < 2 ^ 31" using sint_c_int_bounds by blast
    then have succ: "sint (j + 1) = sint j + 1" using lt by (simp add: sint_succ_c_int)
    have nn: "0 \<le> sint i * sint n" using "1.prems" lt by simp
    have natidx: "nat (sint i * sint n + sint j) = nat (sint i) * nat (sint n) + nat (sint j)"
      using "1.prems" lt nn by (simp add: nat_add_distrib nat_mult_distrib)
    have ia: "sint i * sint n + sint j < int (length A)" using "1.prems" lt by simp
    have ix: "sint j < int (length x)" using "1.prems" lt by simp
    define v where "v = y ! nat (sint i) + A ! (nat (sint i) * nat (sint n) + nat (sint j)) * x ! nat (sint j)"
    have acc: "accumulate A x n i j (y, tr) =
        Inr (y[nat (sint i) := v],
             tr @ [Load Buf_y (sint i), Load Buf_A (sint i * sint n + sint j), Load Buf_x (sint j), Store Buf_y (sint i)])"
      using "1.prems" ia ix nn
      by (simp add: accumulate_def in_bounds_def Let_def idx natidx v_def)
    have len: "nat (sint i) < length y" using "1.prems" by simp
    from "1.hyps" [OF True acc]
    obtain tr' where ih: "inner_loop A x n i (j + 1) (y[nat (sint i) := v],
             tr @ [Load Buf_y (sint i), Load Buf_A (sint i * sint n + sint j), Load Buf_x (sint j), Store Buf_y (sint i)]) =
       Inr ((y[nat (sint i) := v])[nat (sint i) := foldl (\<lambda>acc k. acc + A ! (nat (sint i) * nat (sint n) + k) * x ! k)
                              ((y[nat (sint i) := v]) ! nat (sint i)) [nat (sint (j + 1))..<nat (sint n)]], tr')"
      using "1.prems" lt succ by auto
    have up: "[nat (sint j)..<nat (sint n)] = nat (sint j) # [nat (sint (j + 1))..<nat (sint n)]"
      using "1.prems" lt succ by (simp add: upt_conv_Cons nat_add_distrib)
    show ?thesis
      using True acc ih len
      by (subst inner_loop.simps) (simp add: up v_def)
  qed
qed

lemma compute_row_result:
  assumes "0 \<le> sint i" "sint i < int (length y)" "0 \<le> sint n"
    and "sint i * sint n + sint n \<le> int (length A)" "sint i * sint n + sint n \<le> 2 ^ 31"
    and "sint n \<le> int (length x)"
  shows "\<exists>tr'. compute_row A x n i (y, tr) =
     Inr (y[nat (sint i) := dot_row A x (nat (sint n)) (nat (sint i))], tr')"
proof -
  have len: "nat (sint i) < length y" using assms by simp
  from inner_loop_result [of i "y[nat (sint i) := 0]" 0 n A x "tr @ [Store Buf_y (sint i)]"]
  obtain tr' where "inner_loop A x n i 0 (y[nat (sint i) := 0], tr @ [Store Buf_y (sint i)]) =
     Inr ((y[nat (sint i) := 0])[nat (sint i) := foldl (\<lambda>acc k. acc + A ! (nat (sint i) * nat (sint n) + k) * x ! k)
                              ((y[nat (sint i) := 0]) ! nat (sint i)) [nat (sint (0::c_int))..<nat (sint n)]], tr')"
    using assms by auto
  then show ?thesis
    using assms len by (simp add: compute_row_def in_bounds_def dot_row_def Let_def)
qed

lemma iter_rows_result:
  assumes "0 \<le> a" "int (length y) = m" "0 \<le> sint n" "m < 2 ^ 31"
    and "m * sint n \<le> int (length A)" "m * sint n \<le> 2 ^ 31"
    and "sint n \<le> int (length x)"
  shows "\<exists>tr'. iter_rows A x n [a..m - 1] (y, tr) =
     Inr (take (nat a) y @ map (dot_row A x (nat (sint n))) [nat a..<nat m], tr')"
  using assms
proof (induction "nat (m - a)" arbitrary: a y tr)
  case 0
  then have "m \<le> a" by simp
  then show ?case using "0.prems" by simp
next
  case (Suc d)
  then have lt: "a < m" by simp
  have sa: "sint (word_of_int a :: c_int) = a"
    using Suc.prems lt by (simp add: sint_of_int_c_int)
  have "(a + 1) * sint n \<le> m * sint n" using lt Suc.prems by (intro mult_right_mono) auto
  then have bnd: "a * sint n + sint n \<le> m * sint n" by (simp add: algebra_simps)
  from compute_row_result [of "word_of_int a" y n A x tr]
  obtain tr1 where row: "compute_row A x n (word_of_int a) (y, tr) =
     Inr (y[nat a := dot_row A x (nat (sint n)) (nat a)], tr1)"
    using Suc.prems lt bnd by (auto simp: sa)
  have d: "d = nat (m - (a + 1))" using Suc.hyps(2) by simp
  from Suc.hyps(1) [OF d, of "y[nat a := dot_row A x (nat (sint n)) (nat a)]" tr1]
  obtain tr' where rest: "iter_rows A x n [a + 1..m - 1] (y[nat a := dot_row A x (nat (sint n)) (nat a)], tr1) =
     Inr (take (nat (a + 1)) (y[nat a := dot_row A x (nat (sint n)) (nat a)])
          @ map (dot_row A x (nat (sint n))) [nat (a + 1)..<nat m], tr')"
    using Suc.prems by auto
  have up: "[a..m - 1] = a # [a + 1..m - 1]" using lt by (simp add: upto_rec1)
  have len: "nat a < length y" using Suc.prems lt by simp
  have tk: "take (nat (a + 1)) (y[nat a := dot_row A x (nat (sint n)) (nat a)])
      = take (nat a) y @ [dot_row A x (nat (sint n)) (nat a)]"
    using len Suc.prems(1) by (simp add: nat_add_distrib take_Suc_conv_app_nth)
  have upt: "[nat a..<nat m] = nat a # [nat (a + 1)..<nat m]"
    using lt Suc.prems(1) by (simp add: upt_conv_Cons nat_add_distrib)
  show ?case using row rest by (simp add: up tk upt)
qed

lemma Mat_vect_mult_result:
  assumes "0 \<le> sint m" "0 \<le> sint n" "length y = nat (sint m)" "length x = nat (sint n)"
    and "length A = nat (sint m * sint n)" "sint m * sint n < 2 ^ 31"
  shows "\<exists>tr'. Mat_vect_mult A x (y, tr) m n = Inr (matvec_spec A x (nat (sint m)) (nat (sint n)), tr')"
proof -
  have "sint m < 2 ^ 31" using sint_c_int_bounds by blast
  moreover have "0 \<le> sint m * sint n" using assms by simp
  ultimately show ?thesis
    using iter_rows_result [of 0 y "sint m" n A x tr] assms
    by (simp add: Mat_vect_mult_def Mat_vect_mult_loop_iter matvec_spec_def)
qed

section \<open>Claim about the equivalence of the parallel and the serial computation\<close>

text \<open>
  \<^bold>\<open>Claim C2\<close>. For dimensions \<open>m, n \<ge> 1\<close> and every worker count \<open>p \<ge> 1\<close>, running
  \<open>Pth_mat_vect\<close> for the worker ids \<open>0, \<dots>, p - 1\<close> leaves exactly what the serial
  \<open>Mat_vect_mult\<close> leaves on the same buffers: the same fault, or the same output vector
  (and even the same sequence of array accesses). The right-hand side does not mention
  the thread count, so the result is the same for every \<open>p\<close>. When the buffers have the
  sizes the dimensions announce and \<open>m * n\<close> fits an \<^verbatim>\<open>int\<close> (the index \<^verbatim>\<open>i * n + j\<close> is
  computed in \<^verbatim>\<open>int\<close>), that common result is the vector of the left-to-right sums
  \<open>y[i] = ((0 + A[i*n] * x[0]) + A[i*n+1] * x[1]) + \<dots>\<close> of \<open>matvec_spec\<close>.
\<close>

theorem parallel_equals_serial:
  assumes "1 \<le> sint (glob_m g)" and "1 \<le> sint (glob_n g)" and "1 \<le> sint (thread_count g)"
  shows "outcome_of (run_threads (\<lambda>_. True) 0 g)
           = Mat_vect_mult (glob_A g) (glob_x g) (glob_y g, trace g) (glob_m g) (glob_n g)
       \<and> (length (glob_A g) = nat (sint (glob_m g) * sint (glob_n g))
            \<and> length (glob_x g) = nat (sint (glob_n g))
            \<and> length (glob_y g) = nat (sint (glob_m g))
            \<and> sint (glob_m g) * sint (glob_n g) < 2 ^ 31
          \<longrightarrow> (\<exists>tr'. outcome_of (run_threads (\<lambda>_. True) 0 g)
                 = Inr (matvec_spec (glob_A g) (glob_x g) (nat (sint (glob_m g))) (nat (sint (glob_n g))), tr')))"
proof -
  have run: "run_threads (\<lambda>_. True) 0 g =
     (case iter_rows (glob_A g) (glob_x g) (glob_n g)
             [BLOCK_LOW (sint (0::c_long)) (sint (thread_count g)) (sint (glob_m g)) .. sint (glob_m g) - 1]
             (glob_y g, trace g) of
        Inl f \<Rightarrow> Inl f
      | Inr (y', tr') \<Rightarrow> Inr (g\<lparr>glob_y := y', trace := tr'\<rparr>))"
    using assms by (intro run_threads_iter) auto
  have eq: "outcome_of (run_threads (\<lambda>_. True) 0 g)
      = Mat_vect_mult (glob_A g) (glob_x g) (glob_y g, trace g) (glob_m g) (glob_n g)"
    unfolding run
    by (simp add: outcome_of_def Mat_vect_mult_def Mat_vect_mult_loop_iter BLOCK_LOW_zero
          split: sum.splits prod.splits)
  have spec: "\<exists>tr'. outcome_of (run_threads (\<lambda>_. True) 0 g)
                 = Inr (matvec_spec (glob_A g) (glob_x g) (nat (sint (glob_m g))) (nat (sint (glob_n g))), tr')"
    if "length (glob_A g) = nat (sint (glob_m g) * sint (glob_n g))"
      "length (glob_x g) = nat (sint (glob_n g))" "length (glob_y g) = nat (sint (glob_m g))"
      "sint (glob_m g) * sint (glob_n g) < 2 ^ 31"
    unfolding eq using assms that by (intro Mat_vect_mult_result) auto
  show ?thesis using eq spec by blast
qed

lemma example_serial:
  "map_sum (\<lambda>f. f) fst (Mat_vect_mult [1, 2, 3, 4, 5, 6 :: int] [1, 1, 1] ([77, 88], []) 2 3) = Inr [6, 15]"
  by code_simp

theorem parallel_equals_serial_witness:
  "map_sum (\<lambda>f. f) fst (outcome_of (run_threads (\<lambda>_. True) 0 (example_globals 5))) = Inr [6, 15]
   \<and> matvec_spec [1, 2, 3, 4, 5, 6 :: int] [1, 1, 1] 2 3 = [6, 15]"
proof -
  have h: "1 \<le> sint (glob_m (example_globals 5))" "1 \<le> sint (glob_n (example_globals 5))"
    "1 \<le> sint (thread_count (example_globals 5))"
    by (simp_all add: example_globals_def)
  have "outcome_of (run_threads (\<lambda>_. True) 0 (example_globals 5))
      = Mat_vect_mult [1, 2, 3, 4, 5, 6] [1, 1, 1] ([77, 88], []) 2 3"
    using parallel_equals_serial [OF h] by (simp add: example_globals_def)
  moreover have "matvec_spec [1, 2, 3, 4, 5, 6 :: int] [1, 1, 1] 2 3 = [6, 15]"
    by code_simp
  ultimately show ?thesis using example_serial by simp
qed

section \<open>Facts about Write_vector and Read_matrix\<close>

lemma length_encode_word: "length (encode_word e k w) = k"
  by (simp add: encode_word_def le_bytes_def split: endianness.splits)

lemma length_concat_encoded:
  "length (concat (map (\<lambda>v. encode_word e 8 (f v)) ys)) = 8 * length ys"
  by (induction ys) (simp_all add: length_encode_word)

lemma Write_vector_not_writable:
  "\<not> writable env name \<Longrightarrow> Write_vector env fs name y m = (Inl Cannot_open, fs)"
  by (simp add: Write_vector_def)

lemma Write_vector_disk:
  assumes "writable env name"
  shows "snd (Write_vector env fs name y m) = fs(name \<mapsto> take (disk_room env) (vector_bytes env m y))"
proof -
  let ?e = "byte_order env"
  let ?h1 = "encode_word ?e 4 m" and ?h2 = "encode_word ?e 4 (1 :: c_int)"
  let ?d = "concat (map (\<lambda>v. encode_word ?e 8 (bits_of_double env v)) (take (unat (scast m :: size_t)) y))"
  have l1: "length ?h1 = 4" and l2: "length ?h2 = 4" by (simp_all add: length_encode_word)
  show ?thesis
  proof (cases "disk_room env < 4")
    case True
    then show ?thesis
      using assms l1 by (simp add: Write_vector_def fwrite_def Let_def vector_bytes_def)
  next
    case False
    note r4 = this
    show ?thesis
    proof (cases "disk_room env < 8")
      case True
      then show ?thesis
        using assms l1 l2 r4
        by (simp add: Write_vector_def fwrite_def Let_def vector_bytes_def)
    next
      case False
      then show ?thesis
        using assms l1 l2 r4
        by (simp add: Write_vector_def fwrite_def Let_def vector_bytes_def split: prod.splits)
    qed
  qed
qed

lemma length_vector_bytes:
  "unat (scast m :: size_t) \<le> length y \<Longrightarrow>
   length (vector_bytes env m y) = 8 + 8 * unat (scast m :: size_t)"
  by (simp add: vector_bytes_def length_encode_word length_concat_encoded)

lemma of_nat_eq_size_t_iff:
  assumes "k \<le> unat (c :: size_t)"
  shows "(of_nat k :: size_t) = c \<longleftrightarrow> k = unat c"
proof
  assume "(of_nat k :: size_t) = c"
  then have "unat (of_nat k :: size_t) = unat c" by simp
  moreover have "k < 2 ^ 64" using assms unsigned_less [of c, where 'a = nat] by simp
  ultimately show "k = unat c" by (simp add: unat_of_nat)
next
  assume "k = unat c"
  then show "(of_nat k :: size_t) = c" by simp
qed

lemma Write_vector_ok_iff:
  assumes "writable env name" "unat (scast m :: size_t) \<le> length y"
  shows "fst (Write_vector env fs name y m) = Inr () \<longleftrightarrow> length (vector_bytes env m y) \<le> disk_room env"
proof -
  let ?e = "byte_order env"
  let ?M = "unat (scast m :: size_t)"
  let ?h1 = "encode_word ?e 4 m" and ?h2 = "encode_word ?e 4 (1 :: c_int)"
  let ?d = "concat (map (\<lambda>v. encode_word ?e 8 (bits_of_double env v)) (take ?M y))"
  have l1: "length ?h1 = 4" and l2: "length ?h2 = 4" by (simp_all add: length_encode_word)
  have ld: "length ?d = 8 * ?M" using assms(2) by (simp add: length_concat_encoded)
  have len: "length (vector_bytes env m y) = 8 + 8 * ?M" using assms(2) by (rule length_vector_bytes)
  show ?thesis
  proof (cases "disk_room env < 4")
    case True
    then show ?thesis
      using assms l1 len by (simp add: Write_vector_def fwrite_def Let_def)
  next
    case False
    note r4 = this
    show ?thesis
    proof (cases "disk_room env < 8")
      case True
      then show ?thesis
        using assms l1 l2 r4 len
        by (simp add: Write_vector_def fwrite_def Let_def)
    next
      case False
      define k3 where "k3 = min (8 * ?M) (disk_room env - 8) div 8"
      have k3_le: "k3 \<le> ?M" by (simp add: k3_def)
      have k3_eq: "k3 = ?M \<longleftrightarrow> 8 + 8 * ?M \<le> disk_room env"
        using False by (auto simp: k3_def min_def)
      have "fst (Write_vector env fs name y m) = Inr () \<longleftrightarrow> (of_nat k3 :: size_t) = scast m"
        using assms l1 l2 r4 False ld
        by (simp add: Write_vector_def fwrite_def Let_def k3_def split: prod.splits)
      then show ?thesis
        using k3_eq len of_nat_eq_size_t_iff [OF k3_le] by simp
    qed
  qed
qed

lemma Write_vector_failed_prefix:
  assumes "writable env name" "unat (scast m :: size_t) \<le> length y"
    and "fst (Write_vector env fs name y m) \<noteq> Inr ()"
  shows "strict_prefix (take (disk_room env) (vector_bytes env m y)) (vector_bytes env m y)"
proof -
  have "disk_room env < length (vector_bytes env m y)"
    using assms Write_vector_ok_iff [OF assms(1,2), of fs] by simp
  then show ?thesis
    by (metis append_take_drop_id leD prefixI prefix_order.less_le take_all_iff)
qed

lemma sle_zero_iff: "(w :: c_int) \<le>s 0 \<longleftrightarrow> sint w \<le> 0"
  by (simp add: word_sle_eq)

lemma Read_matrix_success:
  assumes "Read_matrix env alloc name = Inr (buf, rows, cols)"
  shows "1 \<le> sint rows \<and> 1 \<le> sint cols
       \<and> length buf = unat (scast (rows * cols) :: size_t)
       \<and> alloc (unat ((scast (rows * cols) :: size_t) * 8))
       \<and> (\<exists>stream. files env name = Some stream \<and> 8 \<le> length stream
             \<and> rows = decode_word (byte_order env) (take 4 stream)
             \<and> cols = decode_word (byte_order env) (take 4 (drop 4 stream))
             \<and> 8 * length buf \<le> length stream - 8
             \<and> buf = map (double_of_bits env)
                        (fread_doubles (byte_order env) (length buf) (drop 8 stream)))"
proof -
  from assms obtain stream where f: "files env name = Some stream"
    by (auto simp: Read_matrix_def split: option.splits)
  from assms f obtain stream1 where r: "fread_int (byte_order env) stream = Some (rows, stream1)"
    by (auto simp: Read_matrix_def Let_def split: option.splits if_splits)
  from assms f r obtain stream2 where c: "fread_int (byte_order env) stream1 = Some (cols, stream2)"
    by (auto simp: Read_matrix_def Let_def split: option.splits if_splits)
  have l1: "4 \<le> length stream" and rows: "rows = decode_word (byte_order env) (take 4 stream)"
    and s1: "stream1 = drop 4 stream"
    using r by (auto simp: fread_int_def split: if_splits)
  have l2: "4 \<le> length stream1" and cols: "cols = decode_word (byte_order env) (take 4 stream1)"
    and s2: "stream2 = drop 4 stream1"
    using c by (auto simp: fread_int_def split: if_splits)
  define count where "count = (scast (rows * cols) :: size_t)"
  define items where "items = fread_doubles (byte_order env) (unat count) stream2"
  have pos: "\<not> (rows \<le>s 0 \<or> cols \<le>s 0)" and al: "alloc (unat (count * 8))"
    and cnt: "(of_nat (length items) :: size_t) = count"
    and buf: "buf = map (double_of_bits env) items"
    using assms f r c
    by (auto simp: Read_matrix_def Let_def count_def items_def split: if_splits)
  have len_chunks: "length (chunks sz k bs) = k" for sz k and bs :: "byte list"
    by (induction k arbitrary: bs) simp_all
  have li: "length items = min (unat count) (length stream2 div 8)"
    by (simp add: items_def fread_doubles_def len_chunks)
  then have "length items \<le> unat count" by simp
  then have eq: "length items = unat count" using cnt of_nat_eq_size_t_iff by blast
  then have enough: "unat count \<le> length stream2 div 8" using li by simp
  have lb: "length buf = unat count" using eq buf by simp
  have it: "buf = map (double_of_bits env) (fread_doubles (byte_order env) (length buf) (drop 8 stream))"
    unfolding lb using buf by (simp add: items_def s1 s2)
  have c1: "1 \<le> sint rows \<and> 1 \<le> sint cols" using pos by (simp add: sle_zero_iff)
  have c2: "length buf = unat (scast (rows * cols) :: size_t)" using lb by (simp add: count_def)
  have c3: "alloc (unat ((scast (rows * cols) :: size_t) * 8))" using al by (simp add: count_def)
  have c4: "8 \<le> length stream" using l1 l2 by (simp add: s1)
  have c5: "cols = decode_word (byte_order env) (take 4 (drop 4 stream))" using cols by (simp add: s1)
  have c6: "8 * length buf \<le> length stream - 8" using enough lb by (simp add: s1 s2)
  show ?thesis using c1 c2 c3 f c4 rows c5 c6 it by blast
qed

lemma scast_c_int_size_t:
  assumes "0 \<le> sint (w :: c_int)"
  shows "(scast w :: size_t) = of_nat (nat (sint w))"
proof -
  have "(of_nat (nat (sint w)) :: size_t) = of_int (int (nat (sint w)))"
    by (simp only: of_int_of_nat_eq)
  also have "\<dots> = of_int (sint w)" using assms by simp
  finally show ?thesis by (simp only: scast_eq)
qed

lemma unat_scast_c_int:
  assumes "0 \<le> sint (w :: c_int)"
  shows "unat (scast w :: size_t) = nat (sint w)"
proof -
  have "sint w < 2 ^ 31" using sint_c_int_bounds by blast
  then have "nat (sint w) < 2 ^ 64" using assms by simp
  then have "unat (of_nat (nat (sint w)) :: size_t) = nat (sint w)"
    by (simp only: unat_of_nat) simp
  then show ?thesis by (simp only: scast_c_int_size_t [OF assms])
qed

lemma unat_scast_times8:
  assumes "0 \<le> sint (w :: c_int)"
  shows "unat ((scast w :: size_t) * 8) = 8 * nat (sint w)"
proof -
  have "sint w < 2 ^ 31" using sint_c_int_bounds by blast
  then have b: "8 * nat (sint w) < 2 ^ 64" using assms by simp
  have "(scast w :: size_t) * 8 = of_nat (8 * nat (sint w))"
    by (simp only: scast_c_int_size_t [OF assms]) simp
  then show ?thesis using b by (simp only: unat_of_nat) simp
qed

section \<open>What the workers leave unchanged\<close>

lemma accumulate_length:
  "accumulate A x n i j (y, tr) = Inr (y', tr') \<Longrightarrow> length y' = length y"
  by (auto simp: accumulate_def Let_def split: if_splits)

lemma inner_loop_length:
  "inner_loop A x n i j s = Inr s' \<Longrightarrow> length (fst s') = length (fst s)"
proof (induction A x n i j s rule: inner_loop.induct)
  case (1 A x n i j s)
  show ?case
  proof (cases "j <s n")
    case False
    then show ?thesis using "1.prems" by (subst (asm) inner_loop.simps) simp
  next
    case True
    then obtain s1 where a: "accumulate A x n i j s = Inr s1"
      and r: "inner_loop A x n i (j + 1) s1 = Inr s'"
      using "1.prems" by (subst (asm) inner_loop.simps) (auto split: sum.splits)
    have "length (fst s1) = length (fst s)"
      using a accumulate_length [of A x n i j "fst s" "snd s" "fst s1" "snd s1"] by simp
    then show ?thesis using "1.IH" [OF True a r] by simp
  qed
qed

lemma compute_row_length:
  "compute_row A x n i s = Inr s' \<Longrightarrow> length (fst s') = length (fst s)"
  by (cases s) (auto simp: compute_row_def Let_def split: if_splits dest!: inner_loop_length)

lemma rows_loop_length:
  "rows_loop A x n i last_row s = Inr s' \<Longrightarrow> length (fst s') = length (fst s)"
proof (induction A x n i last_row s rule: rows_loop.induct)
  case (1 A x n i last_row s)
  show ?case
  proof (cases "i \<le>s last_row")
    case False
    then show ?thesis using "1.prems" by (subst (asm) rows_loop.simps) simp
  next
    case True
    then obtain s1 where a: "compute_row A x n i s = Inr s1"
      and r: "rows_loop A x n (i + 1) last_row s1 = Inr s'"
      using "1.prems" by (subst (asm) rows_loop.simps) (auto split: sum.splits)
    show ?thesis using "1.IH" [OF True a r] compute_row_length [OF a] by simp
  qed
qed

lemma Pth_mat_vect_frame:
  assumes "Pth_mat_vect rank g = Inr g'"
  shows "length (glob_y g') = length (glob_y g) \<and> g' = g\<lparr>glob_y := glob_y g', trace := trace g'\<rparr>"
  using assms
  by (auto simp: Pth_mat_vect_def Let_def split: if_splits sum.splits prod.splits dest!: rows_loop_length)

lemma run_threads_frame:
  "run_threads started thread g = Inr g' \<Longrightarrow>
   length (glob_y g') = length (glob_y g) \<and> g' = g\<lparr>glob_y := glob_y g', trace := trace g'\<rparr>"
proof (induction started thread g rule: run_threads.induct)
  case (1 started thread g)
  show ?case
  proof (cases "thread <s scast (thread_count g)")
    case False
    then show ?thesis using "1.prems" by (subst (asm) run_threads.simps) simp
  next
    case True
    note lt = this
    show ?thesis
    proof (cases "started thread")
      case False
      then have "run_threads started (thread + 1) g = Inr g'"
        using "1.prems" lt by (subst (asm) run_threads.simps) simp
      then show ?thesis using "1.IH"(2) [OF lt False] by simp
    next
      case True
      then obtain g1 where a: "Pth_mat_vect thread g = Inr g1"
        and r: "run_threads started (thread + 1) g1 = Inr g'"
        using "1.prems" lt by (subst (asm) run_threads.simps) (auto split: sum.splits)
      from Pth_mat_vect_frame [OF a] "1.IH"(1) [OF lt True a r]
      show ?thesis by (metis (no_types, lifting) globals.surjective globals.update_convs(4,7))
    qed
  qed
qed

section \<open>The control flow of main\<close>

lemma main_after_reads:
  assumes "length argv = 5" and "1 \<le> sint (atoi (argv ! 4))"
    and "Read_matrix env (malloc_ok env 0) (argv ! 1) = Inr (A, m, n)"
    and "Read_matrix env (malloc_ok env 1) (argv ! 2) = Inr (x, m_x, n_x)"
  shows "main env argv =
     (if n_x \<noteq> 1 then
        stop env [''Error: x must be a column vector (n_x = '' @ show_int (sint n_x) @ '', should be 1)'']
      else if n \<noteq> m_x then
        stop env [''Error: Incompatible dimensions for multiplication'',
                  ''  Matrix A is '' @ show_int (sint m) @ '' x '' @ show_int (sint n)
                    @ '', Vector x is '' @ show_int (sint m_x) @ '' x 1'']
      else compute_stage env argv (atoi (argv ! 4)) A m n x)"
proof -
  have "\<not> atoi (argv ! 4) \<le>s 0" using assms(2) by (simp add: sle_zero_iff)
  then show ?thesis using assms(1,3,4) by (simp add: main_def Let_def)
qed

lemma status_stop: "status (stop env msgs) = Exit 1"
  and disk_stop: "disk (stop env msgs) = files env"
  and launched_stop: "launched (stop env msgs) = 0"
  and accesses_stop: "accesses (stop env msgs) = []"
  and stderr_stop: "stderr (stop env msgs) = msgs"
  by (simp_all add: stop_def)

lemma main_exit0:
  assumes "status (main env argv) = Exit 0"
  shows "length argv = 5 \<and> 1 \<le> sint (atoi (argv ! 4))
       \<and> (\<exists>A m n x. Read_matrix env (malloc_ok env 0) (argv ! 1) = Inr (A, m, n)
             \<and> Read_matrix env (malloc_ok env 1) (argv ! 2) = Inr (x, n, 1)
             \<and> malloc_ok env 2 (unat ((scast m :: size_t) * 8))
             \<and> malloc_ok env 3 (unat ((scast (atoi (argv ! 4)) :: size_t) * 8))
             \<and> (\<exists>g'. run_threads (thread_ok env) 0 (initial_globals env (atoi (argv ! 4)) A m n x) = Inr g'
                   \<and> Write_vector env (files env) (argv ! 3) (glob_y g') (glob_m g')
                       = (Inr (), disk (main env argv))))"
proof -
  have len: "length argv = 5"
    using assms by (auto simp: main_def status_stop split: if_splits)
  have tc: "1 \<le> sint (atoi (argv ! 4))"
    using assms len by (auto simp: main_def Let_def status_stop sle_zero_iff split: if_splits)
  obtain A m n where ra: "Read_matrix env (malloc_ok env 0) (argv ! 1) = Inr (A, m, n)"
    using assms len tc
    by (cases "Read_matrix env (malloc_ok env 0) (argv ! 1)")
       (auto simp: main_def Let_def status_stop sle_zero_iff)
  obtain x m_x n_x where rx: "Read_matrix env (malloc_ok env 1) (argv ! 2) = Inr (x, m_x, n_x)"
    using assms len tc ra
    by (cases "Read_matrix env (malloc_ok env 1) (argv ! 2)")
       (auto simp: main_def Let_def status_stop sle_zero_iff)
  note m = main_after_reads [OF len tc ra rx]
  have nx: "n_x = 1" and nm: "m_x = n"
    using assms by (auto simp: m status_stop split: if_splits)
  then have cs: "main env argv = compute_stage env argv (atoi (argv ! 4)) A m n x"
    using m by simp
  have a2: "malloc_ok env 2 (unat ((scast m :: size_t) * 8))"
    and a3: "malloc_ok env 3 (unat ((scast (atoi (argv ! 4)) :: size_t) * 8))"
    using assms by (auto simp: cs compute_stage_def status_stop split: if_splits)
  obtain g' where run: "run_threads (thread_ok env) 0 (initial_globals env (atoi (argv ! 4)) A m n x) = Inr g'"
    using assms a2 a3
    by (cases "run_threads (thread_ok env) 0 (initial_globals env (atoi (argv ! 4)) A m n x)")
       (auto simp: cs compute_stage_def)
  have ws: "main env argv = write_stage env argv (atoi (argv ! 4)) g'"
    using a2 a3 run by (simp add: cs compute_stage_def)
  have "Write_vector env (files env) (argv ! 3) (glob_y g') (glob_m g') = (Inr (), disk (main env argv))"
    using assms by (auto simp: ws write_stage_def split: prod.splits sum.splits)
  then show ?thesis using len tc ra rx nx nm a2 a3 run by blast
qed

section \<open>Claim about the validation of the dimensions\<close>



end
